theory Spec2Isabelle
  imports Complex_Main
begin

section \<open>The dialog plugin (src/plugins/js/dialog.js)\<close>

text \<open>
  The module keeps three pieces of module-level state (the registry \<open>contexts\<close>, the
  counter \<open>dialogCount\<close> and the property \<open>currentZIndex\<close> of the exported object), attaches
  a back-reference \<open>__dialog__\<close> to every owner it shows, and talks to its collaborators
  (\<open>system\<close>, \<open>activator\<close>, \<open>composition\<close>) through promises.  The embedding makes all of it
  explicit: the module state is a record, the objects that the code mutates through references
  (dialog contexts, owners) live in stores indexed by address, every \<open>show\<close> invocation is a
  closure record holding its deferred, and the asynchronous answers of the collaborators are
  events that run the continuation the source registered with \<open>then\<close>.

  A JavaScript number is a double.  \<open>currentZIndex\<close> is a public property of the exported
  object, documented as an \<open>int\<close>, that the application may set, so \<open>++this.currentZIndex\<close> is
  modelled on the doubles whose value is an integer, with the rounding of the addition.
  \<open>dialogCount\<close> is a variable of the module that starts at 0 and moves by one for each
  continuation that runs; it is an integer here.  The element handling of the built-in context
  (styles, the timer that removes the elements, \<open>compositionComplete\<close>) is outside the
  embedding except for the z-index it allocates, the scroll lock it takes and releases, and
  the click handler that calls the \<open>close\<close> of a session.  \<open>MessageBox\<close>, \<open>showMessage\<close> and \<open>install\<close> reach the dialog
  lifecycle only through \<open>dialog.show\<close> and \<open>dialog.close\<close>.
\<close>

subsection \<open>JavaScript values\<close>

datatype jsval = JUndefined | JNull | JBool bool | JNum int | JStr string | JObj nat

text \<open>The test \<open>if (v)\<close>.\<close>

fun truthy :: "jsval \<Rightarrow> bool" where
  "truthy JUndefined = False"
| "truthy JNull = False"
| "truthy (JBool b) = b"
| "truthy (JNum n) = (n \<noteq> 0)"
| "truthy (JStr s) = (s \<noteq> [])"
| "truthy (JObj a) = True"

datatype error = TypeError | RangeError

text \<open>Reading a table by index; an index that was never allocated reads as nothing.\<close>

definition lookup :: "'a list \<Rightarrow> nat \<Rightarrow> 'a option" where
  "lookup xs i = (if i < length xs then Some (xs ! i) else None)"

subsection \<open>Deferreds\<close>

datatype fstate = Pending | Resolved "jsval list" | Rejected jsval

text \<open>
  Modelled from the spec: \<open>system.defer\<close> of durandal/system is not part of the sources.  The
  spec asks for futures with a single-resolution guarantee: a deferred is settled by the first
  \<open>resolve\<close> it receives and later calls change nothing.
\<close>

definition dfd_resolve :: "fstate \<Rightarrow> jsval list \<Rightarrow> fstate" where
  "dfd_resolve f args = (case f of Pending \<Rightarrow> Resolved args | _ \<Rightarrow> f)"

subsection \<open>Data model\<close>

text \<open>
  A dialog context is an object with the attributes \<open>name\<close>, \<open>blockoutOpacity\<close>, \<open>removeDelay\<close>
  and its hooks.  \<open>addHost\<close> and \<open>removeHost\<close> are either the functions of the built-in context
  at the end of the source, or functions supplied by the application, of which only the call is
  recorded: they are taken to return normally and not to call back into the manager.  The
  optional hooks \<open>attached\<close> and \<open>compositionComplete\<close> are forwarded to the compositor and
  never called here; a number stands for the function.
\<close>

datatype hooks = DefaultHooks | CustomHooks

record dialogContext =
  name :: "string option"
  blockoutOpacity :: rat
  removeDelay :: nat
  hostHooks :: hooks
  attached :: "nat option"
  compositionComplete :: "nat option"

record settings =
  s_model :: nat
  s_activate :: bool
  s_attached :: "nat option"
  s_compositionComplete :: "nat option"

text \<open>
  \<open>theDialog\<close>: its fields \<open>context\<close>, \<open>activator\<close> and \<open>close\<close> are the variables
  \<open>dialogContext\<close>, \<open>dialogActivator\<close> and \<open>dfd\<close> of the \<open>show\<close> invocation that built it, kept
  in the record of that invocation.  The host and blockout elements of the built-in context are
  identified by the z-index they were created with.
\<close>

record session =
  owner :: nat
  settings :: "settings option"
  host :: "int option"
  blockout :: "int option"

text \<open>
  One invocation of \<open>show\<close>: the context looked up on entry (\<open>None\<close> is \<open>undefined\<close>), the
  activation data, the deferred whose promise is returned, and how far the chain of
  continuations has come.  \<open>Abandoned\<close>: \<open>system.acquire\<close> failed, and the source registered
  no failure handler.  \<open>Declined\<close>: activation answered \<open>false\<close>.
\<close>

datatype phase = Acquiring string | Activating nat | Activated session | Abandoned | Declined

record invocation =
  dialogContext :: "nat option"
  activationData :: jsval
  dfd :: fstate
  phase :: phase

text \<open>
  What the module does to the outside, in order: the calls to the collaborators and to the
  hooks of a context, the scroll lock that the built-in context takes when it mounts the first
  dialog and releases when it unmounts the last one, and the exceptions that leave a
  continuation.  The numbers are the invocation a call belongs to, the instance, and the
  address of the context.
\<close>

datatype effect =
    Acquire string
  | ActivateItem nat nat jsval
  | DeactivateItem nat nat bool
  | AddHost nat nat
  | RemoveHost nat nat
  | LockScroll nat
  | UnlockScroll nat
  | Compose nat "int option" settings
  | Throw error

text \<open>
  The properties of the exported object that \<open>addContext\<close> can create or replace: those whose
  name starts with \<open>show\<close>.

  The last field of the state is not state of the module but a function of the language that
  the module calls and the source does not contain; it is described where \<open>addContext\<close> uses
  it.  No operation changes it.
\<close>

datatype member = ShowFn | HelperFn string

record dstate =
  heap :: "dialogContext list"
  contexts :: "string \<rightharpoonup> nat"
  members :: "string \<rightharpoonup> member"
  dialogCount :: int
  currentZIndex :: int
  dialogs :: "nat \<rightharpoonup> nat"
  calls :: "invocation list"
  closes :: "(nat \<times> jsval list) option list"
  effects :: "effect list"
  capitalized :: "string \<Rightarrow> string"

datatype target = ModuleId string | Instance nat

subsection \<open>Operations of the manager\<close>

text \<open>
  \<open>++x\<close> on a number whose value is an integer: the sum \<open>x + 1\<close> is rounded to the nearest
  double, and of two nearest ones to the one with the even significand.  A double has a
  significand of 53 bits, so the doubles around an integer of magnitude \<open>m\<close> are the multiples
  of \<open>ulp m\<close>: every integer up to \<open>2 ^ 53\<close>, every second one up to \<open>2 ^ 54\<close>, and so on.
\<close>

function ulp :: "nat \<Rightarrow> nat" where
  "ulp m = (if m < 2 ^ 53 then 1 else 2 * ulp (m div 2))"
  by pat_completeness auto
termination
  by (relation "measure id") auto

declare ulp.simps [simp del]

definition round_double :: "int \<Rightarrow> int" where
  "round_double x =
     (let m = nat \<bar>x\<bar>; u = ulp m; q = m div u; r = m mod u;
          q' = (if 2 * r < u \<or> (2 * r = u \<and> even q) then q else q + 1)
      in sgn x * int (q' * u))"

definition js_incr :: "int \<Rightarrow> int" where
  "js_incr n = round_double (n + 1)"

definition getNextZIndex :: "dstate \<Rightarrow> int \<times> dstate" where
  "getNextZIndex s = (js_incr (currentZIndex s), s\<lparr>currentZIndex := js_incr (currentZIndex s)\<rparr>)"

definition isOpen :: "dstate \<Rightarrow> bool" where
  "isOpen s = (dialogCount s > 0)"

text \<open>\<open>name || 'default'\<close>: an omitted name and the empty string are both falsy.\<close>

definition or_default :: "string option \<Rightarrow> string" where
  "or_default n = (case n of None \<Rightarrow> ''default'' | Some k \<Rightarrow> if k = [] then ''default'' else k)"

definition getContext :: "dstate \<Rightarrow> string option \<Rightarrow> nat option" where
  "getContext s n = contexts s (or_default n)"

definition deref :: "dstate \<Rightarrow> nat option \<Rightarrow> dialogContext option" where
  "deref s r = (case r of None \<Rightarrow> None | Some a \<Rightarrow> lookup (heap s) a)"

text \<open>
  \<open>'show' + name.substr(0, 1).toUpperCase() + name.substr(1)\<close>.  A string is the sequence of
  its bytes in an encoding that leaves ASCII alone.  When the name starts with a character of
  ASCII, \<open>substr(0, 1)\<close> is that character and \<open>substr(1)\<close> the rest, and \<open>toUpperCase\<close> turns
  the letters \<open>a\<close> to \<open>z\<close> into \<open>A\<close> to \<open>Z\<close> and leaves every other character of ASCII as it
  is.  Outside ASCII \<open>toUpperCase\<close> follows the case tables of Unicode and may give more than
  one character; what \<open>name.substr(0, 1).toUpperCase() + name.substr(1)\<close> is for a name that
  starts there is the value of \<open>capitalized\<close> at the name, whatever function that is.
\<close>

definition ascii :: "char \<Rightarrow> bool" where
  "ascii c = ((of_char c :: nat) < 128)"

definition toUpperCase :: "char \<Rightarrow> char" where
  "toUpperCase c =
     (case map_of (zip ''abcdefghijklmnopqrstuvwxyz'' ''ABCDEFGHIJKLMNOPQRSTUVWXYZ'') c of
        None \<Rightarrow> c
      | Some C \<Rightarrow> C)"

definition helperName :: "dstate \<Rightarrow> string \<Rightarrow> string" where
  "helperName s n =
     ''show'' @
       (case n of
          [] \<Rightarrow> []
        | c # cs \<Rightarrow> if ascii c then toUpperCase c # cs else capitalized s n)"

text \<open>
  \<open>addContext\<close> writes the name into the object it was given and stores the reference.  An
  address that holds no object stands for a second argument that is not an object: the
  assignment to its \<open>name\<close> throws.
\<close>

definition addContext :: "dstate \<Rightarrow> string \<Rightarrow> nat \<Rightarrow> error + dstate" where
  "addContext s n a =
     (case lookup (heap s) a of
        None \<Rightarrow> Inl TypeError
      | Some c \<Rightarrow>
          Inr (s\<lparr>heap := (heap s)[a := c\<lparr>name := Some n\<rparr>],
                 contexts := (contexts s)(n \<mapsto> a),
                 members := (members s)(helperName s n \<mapsto> HelperFn n)\<rparr>))"

definition createCompositionSettings :: "nat \<Rightarrow> dialogContext \<Rightarrow> settings" where
  "createCompositionSettings obj dc =
     \<lparr>s_model = obj, s_activate = False, s_attached = attached dc,
      s_compositionComplete = compositionComplete dc\<rparr>"

text \<open>
  Reading \<open>obj.__dialog__\<close>: the read throws on \<open>undefined\<close> and \<open>null\<close>, finds the
  back-reference on an object and nothing on any other value.  \<open>getDialog\<close> reads only from
  a truthy value.
\<close>

definition read_dialog :: "dstate \<Rightarrow> jsval \<Rightarrow> error + nat option" where
  "read_dialog s obj =
     (case obj of
        JObj a \<Rightarrow> Inr (dialogs s a)
      | JUndefined \<Rightarrow> Inl TypeError
      | JNull \<Rightarrow> Inl TypeError
      | _ \<Rightarrow> Inr None)"

definition getDialog :: "dstate \<Rightarrow> jsval \<Rightarrow> error + nat option" where
  "getDialog s obj = (if truthy obj then read_dialog s obj else Inr None)"

text \<open>
  \<open>dialog.close(obj, result...)\<close> forwards to \<open>theDialog.close\<close>, which asks the activator of
  the invocation to deactivate the owner and registers a continuation that holds the arguments.
  The continuation waits in \<open>closes\<close> until the activator answers.
\<close>

definition session_close :: "dstate \<Rightarrow> nat \<Rightarrow> jsval list \<Rightarrow> dstate" where
  "session_close s cid args =
     (case lookup (calls s) cid of
        None \<Rightarrow> s
      | Some c \<Rightarrow>
          (case phase c of
             Activated theDialog \<Rightarrow>
               s\<lparr>closes := closes s @ [Some (cid, args)],
                 effects := effects s @ [DeactivateItem cid (owner theDialog) True]\<rparr>
           | _ \<Rightarrow> s))"

definition close :: "dstate \<Rightarrow> jsval \<Rightarrow> jsval list \<Rightarrow> error + dstate" where
  "close s obj rest =
     (case getDialog s obj of
        Inl e \<Rightarrow> Inl e
      | Inr None \<Rightarrow> Inr s
      | Inr (Some theDialog) \<Rightarrow> Inr (session_close s theDialog rest))"

text \<open>
  The body of \<open>show\<close> up to the first asynchronous answer.  The context is looked up on entry.
  A module id is handed to \<open>system.acquire\<close>; an object is resolved at once by
  \<open>ensureDialogInstance\<close>, a fresh activator is created and asked to activate it.  The result
  is the new state and the invocation whose promise is returned.  The variables of the
  closure start out as \<open>new_invocation\<close> says.
\<close>

definition new_invocation :: "dstate \<Rightarrow> jsval \<Rightarrow> string option \<Rightarrow> phase \<Rightarrow> invocation" where
  "new_invocation s data cx ph =
     \<lparr>dialogContext = contexts s (or_default cx), activationData = data, dfd = Pending, phase = ph\<rparr>"

definition show_dialog :: "dstate \<Rightarrow> target \<Rightarrow> jsval \<Rightarrow> string option \<Rightarrow> dstate \<times> nat" where
  "show_dialog s obj data cx =
     (let cid = length (calls s)
      in case obj of
           ModuleId m \<Rightarrow>
             (s\<lparr>calls := calls s @ [new_invocation s data cx (Acquiring m)],
                effects := effects s @ [Acquire m]\<rparr>, cid)
         | Instance i \<Rightarrow>
             (s\<lparr>calls := calls s @ [new_invocation s data cx (Activating i)],
                effects := effects s @ [ActivateItem cid i data]\<rparr>, cid))"

text \<open>
  The continuation of \<open>system.acquire(objOrModuleId).then\<close>.  It has a success callback only:
  when the acquisition fails nothing runs, and nothing is left that could settle either
  deferred.  The instance is what \<open>system.resolveObject\<close> made of the module.
\<close>

definition on_acquired :: "dstate \<Rightarrow> nat \<Rightarrow> nat option \<Rightarrow> dstate" where
  "on_acquired s cid r =
     (case lookup (calls s) cid of
        None \<Rightarrow> s
      | Some c \<Rightarrow>
          (case phase c of
             Acquiring m \<Rightarrow>
               (case r of
                  None \<Rightarrow> s\<lparr>calls := (calls s)[cid := c\<lparr>phase := Abandoned\<rparr>]\<rparr>
                | Some i \<Rightarrow>
                    s\<lparr>calls := (calls s)[cid := c\<lparr>phase := Activating i\<rparr>],
                      effects := effects s @ [ActivateItem cid i (activationData c)]\<rparr>)
           | _ \<Rightarrow> s))"

text \<open>The hooks of the built-in context, and the call of a hook through a context.\<close>

definition default_addHost :: "nat \<Rightarrow> session \<Rightarrow> dstate \<Rightarrow> session \<times> dstate" where
  "default_addHost cid theDialog s =
     (let (zb, s1) = getNextZIndex s;
          (zh, s2) = getNextZIndex s1;
          s3 = (if \<not> isOpen s2 then s2\<lparr>effects := effects s2 @ [LockScroll cid]\<rparr> else s2)
      in (theDialog\<lparr>host := Some zh, blockout := Some zb\<rparr>, s3))"

definition default_removeHost :: "nat \<Rightarrow> dstate \<Rightarrow> dstate" where
  "default_removeHost cid s =
     (if \<not> isOpen s then s\<lparr>effects := effects s @ [UnlockScroll cid]\<rparr> else s)"

definition addHost :: "nat \<Rightarrow> dialogContext \<Rightarrow> nat \<Rightarrow> session \<Rightarrow> dstate \<Rightarrow> session \<times> dstate" where
  "addHost a dc cid theDialog s =
     (let s1 = s\<lparr>effects := effects s @ [AddHost a cid]\<rparr>
      in case hostHooks dc of
           DefaultHooks \<Rightarrow> default_addHost cid theDialog s1
         | CustomHooks \<Rightarrow> (theDialog, s1))"

definition removeHost :: "nat \<Rightarrow> dialogContext \<Rightarrow> nat \<Rightarrow> dstate \<Rightarrow> dstate" where
  "removeHost a dc cid s =
     (let s1 = s\<lparr>effects := effects s @ [RemoveHost a cid]\<rparr>
      in case hostHooks dc of
           DefaultHooks \<Rightarrow> default_removeHost cid s1
         | CustomHooks \<Rightarrow> s1)"

text \<open>The context object an invocation captured, with its address, as it is now.\<close>

definition captured :: "dstate \<Rightarrow> invocation \<Rightarrow> (nat \<times> dialogContext) option" where
  "captured s c =
     (case dialogContext c of
        None \<Rightarrow> None
      | Some a \<Rightarrow> (case lookup (heap s) a of None \<Rightarrow> None | Some dc \<Rightarrow> Some (a, dc)))"

text \<open>
  The continuation of \<open>activateItem(instance, activationData).then\<close>.  On success the session
  is attached to the owner first; with no context (\<open>undefined\<close>) the next statement throws when
  it reads \<open>dialogContext.attached\<close>, and everything after it is skipped.
\<close>

definition on_activated :: "dstate \<Rightarrow> nat \<Rightarrow> bool \<Rightarrow> dstate" where
  "on_activated s cid success =
     (case lookup (calls s) cid of
        None \<Rightarrow> s
      | Some c \<Rightarrow>
          (case phase c of
             Activating instance \<Rightarrow>
               if success then
                 (let theDialog = \<lparr>owner = instance, settings = None, host = None, blockout = None\<rparr>;
                      s1 = s\<lparr>dialogs := (dialogs s)(instance \<mapsto> cid)\<rparr>
                  in case captured s c of
                       None \<Rightarrow>
                         s1\<lparr>calls := (calls s1)[cid := c\<lparr>phase := Activated theDialog\<rparr>],
                            effects := effects s1 @ [Throw TypeError]\<rparr>
                     | Some (a, dc) \<Rightarrow>
                         (let theDialog2 = theDialog\<lparr>settings := Some (createCompositionSettings instance dc)\<rparr>;
                              (theDialog3, s2) = addHost a dc cid theDialog2 s1;
                              s3 = s2\<lparr>dialogCount := dialogCount s2 + 1\<rparr>
                          in s3\<lparr>calls := (calls s3)[cid := c\<lparr>phase := Activated theDialog3\<rparr>],
                                effects := effects s3 @
                                  [Compose cid (host theDialog3) (createCompositionSettings instance dc)]\<rparr>))
               else s\<lparr>calls := (calls s)[cid := c\<lparr>dfd := dfd_resolve (dfd c) [JBool False], phase := Declined\<rparr>]\<rparr>
           | _ \<Rightarrow> s))"

text \<open>
  The continuation of \<open>deactivateItem(instance, true).then\<close> inside \<open>theDialog.close\<close>.  The
  counter is decremented before the context is used, so with no context the decrement stays and
  the rest is skipped by the exception.
\<close>

definition on_deactivated :: "dstate \<Rightarrow> nat \<Rightarrow> bool \<Rightarrow> dstate" where
  "on_deactivated s t closeSuccess =
     (case lookup (closes s) t of
        Some (Some (cid, args)) \<Rightarrow>
          (let s0 = s\<lparr>closes := (closes s)[t := None]\<rparr>
           in if closeSuccess then
                (case lookup (calls s0) cid of
                   None \<Rightarrow> s0
                 | Some c \<Rightarrow>
                     (case phase c of
                        Activated theDialog \<Rightarrow>
                          (let s1 = s0\<lparr>dialogCount := dialogCount s0 - 1\<rparr>
                           in case captured s1 c of
                                None \<Rightarrow> s1\<lparr>effects := effects s1 @ [Throw TypeError]\<rparr>
                              | Some (a, dc) \<Rightarrow>
                                  (let s2 = removeHost a dc cid s1;
                                       s3 = s2\<lparr>dialogs := (dialogs s2)(owner theDialog := None)\<rparr>
                                   in s3\<lparr>calls := (calls s3)[cid := c\<lparr>dfd := dfd_resolve (dfd c) args\<rparr>]\<rparr>))
                      | _ \<Rightarrow> s0))
              else s0)
      | _ \<Rightarrow> s)"

text \<open>
  Calling a property of the manager.  The helper that \<open>addContext\<close> installs calls \<open>this.show\<close>
  with the name it captured, whatever \<open>show\<close> is at that moment; a property that does not exist
  is not callable.  Not returning is the value \<open>None\<close>.
\<close>

partial_function (option) invoke ::
  "dstate \<Rightarrow> string \<Rightarrow> target \<Rightarrow> jsval \<Rightarrow> string option \<Rightarrow> (error + dstate \<times> nat) option" where
  "invoke s m obj data cx =
     (case members s m of
        None \<Rightarrow> Some (Inl TypeError)
      | Some ShowFn \<Rightarrow> Some (Inr (show_dialog s obj data cx))
      | Some (HelperFn n) \<Rightarrow> invoke s ''show'' obj data (Some n))"

subsection \<open>Executions\<close>

text \<open>
  What can happen to the module: the application creates a context object, calls a function of
  the manager or the \<open>close\<close> of a session it holds (as the click handler installed by
  \<open>compositionComplete\<close> does), or a collaborator answers a pending request.  A call that
  throws or does not return leaves the state as it was.
\<close>

datatype event =
    NewContext dialogContext
  | AddContext string nat
  | GetNextZIndex
  | Invoke string target jsval "string option"
  | Close jsval "jsval list"
  | SessionClose nat "jsval list"
  | AcquireDone nat "nat option"
  | ActivateDone nat bool
  | DeactivateDone nat bool

definition step :: "dstate \<Rightarrow> event \<Rightarrow> dstate" where
  "step s e =
     (case e of
        NewContext c \<Rightarrow> s\<lparr>heap := heap s @ [c]\<rparr>
      | AddContext n a \<Rightarrow> (case addContext s n a of Inl err \<Rightarrow> s | Inr s' \<Rightarrow> s')
      | GetNextZIndex \<Rightarrow> snd (getNextZIndex s)
      | Invoke m obj data cx \<Rightarrow>
          (case invoke s m obj data cx of Some (Inr r) \<Rightarrow> fst r | _ \<Rightarrow> s)
      | Close obj rest \<Rightarrow> (case close s obj rest of Inl err \<Rightarrow> s | Inr s' \<Rightarrow> s')
      | SessionClose cid args \<Rightarrow> session_close s cid args
      | AcquireDone cid r \<Rightarrow> on_acquired s cid r
      | ActivateDone cid b \<Rightarrow> on_activated s cid b
      | DeactivateDone t b \<Rightarrow> on_deactivated s t b)"

fun run :: "dstate \<Rightarrow> event list \<Rightarrow> dstate" where
  "run s [] = s"
| "run s (e # es) = run (step s e) es"

text \<open>
  The state when the module has been loaded: the object literal of the built-in context
  exists, and \<open>dialog.addContext('default', ...)\<close> has run on the fresh module state.  In
  \<open>boot\<close> and \<open>init\<close> the function \<open>capitalized\<close> is the identity; the reachable states start
  from the module loaded with any function in its place.
\<close>

definition default_literal :: dialogContext where
  "default_literal =
     \<lparr>name = None, blockoutOpacity = 1 / 5, removeDelay = 200, hostHooks = DefaultHooks,
      attached = None, compositionComplete = Some 0\<rparr>"

definition boot :: dstate where
  "boot =
     \<lparr>heap = [default_literal], contexts = Map.empty, members = [''show'' \<mapsto> ShowFn],
      dialogCount = 0, currentZIndex = 1050, dialogs = Map.empty, calls = [], closes = [],
      effects = [], capitalized = (\<lambda>n. n)\<rparr>"

definition init :: dstate where
  "init = step boot (AddContext ''default'' 0)"

inductive reachable :: "dstate \<Rightarrow> bool" where
  reachable_loaded: "reachable (step (boot\<lparr>capitalized := up\<rparr>) (AddContext ''default'' 0))"
| reachable_step: "reachable s \<Longrightarrow> reachable (step s e)"

subsection \<open>Notions used by the properties\<close>

text \<open>The state of the promise that invocation \<open>cid\<close> of \<open>show\<close> returned.\<close>

definition future :: "dstate \<Rightarrow> nat \<Rightarrow> fstate option" where
  "future s cid = map_option dfd (lookup (calls s) cid)"

text \<open>
  An open session: the owner carries the session of invocation \<open>cid\<close>, and that invocation
  found a context when it looked one up, so that its activation continuation ran to the end.
\<close>

definition open_session :: "dstate \<Rightarrow> nat \<Rightarrow> nat \<Rightarrow> bool" where
  "open_session s ow cid =
     (dialogs s ow = Some cid \<and>
      (case lookup (calls s) cid of None \<Rightarrow> False | Some c \<Rightarrow> captured s c \<noteq> None))"

text \<open>The number of live sessions: owners that carry a session.\<close>

definition live_sessions :: "dstate \<Rightarrow> nat" where
  "live_sessions s = card (dom (dialogs s))"

text \<open>
  The events that open a dialog (a successful activation whose invocation has a context) and
  those that complete a close (a successful deactivation), counted along an execution.
\<close>

definition opens :: "dstate \<Rightarrow> event \<Rightarrow> bool" where
  "opens s e =
     (case e of
        ActivateDone cid b \<Rightarrow>
          b \<and> (case lookup (calls s) cid of
                 None \<Rightarrow> False
               | Some c \<Rightarrow> (case phase c of Activating i \<Rightarrow> captured s c \<noteq> None | _ \<Rightarrow> False))
      | _ \<Rightarrow> False)"

definition completes_close :: "dstate \<Rightarrow> event \<Rightarrow> bool" where
  "completes_close s e =
     (case e of
        DeactivateDone t b \<Rightarrow>
          b \<and> (case lookup (closes s) t of
                 Some (Some (cid, args)) \<Rightarrow>
                   (case lookup (calls s) cid of
                      None \<Rightarrow> False
                    | Some c \<Rightarrow> (case phase c of Activated th \<Rightarrow> True | _ \<Rightarrow> False))
               | _ \<Rightarrow> False)
      | _ \<Rightarrow> False)"

fun opened :: "dstate \<Rightarrow> event list \<Rightarrow> nat" where
  "opened s [] = 0"
| "opened s (e # es) = (if opens s e then 1 else 0) + opened (step s e) es"

fun closed :: "dstate \<Rightarrow> event list \<Rightarrow> nat" where
  "closed s [] = 0"
| "closed s (e # es) = (if completes_close s e then 1 else 0) + closed (step s e) es"

text \<open>
  An orderly execution: an activation succeeds only for an invocation that has a context and
  whose owner carries no session, and a deactivation succeeds only for the session its owner
  carries at that moment.
\<close>

definition orderly_step :: "dstate \<Rightarrow> event \<Rightarrow> bool" where
  "orderly_step s e =
     (case e of
        ActivateDone cid b \<Rightarrow>
          (if b then
             (case lookup (calls s) cid of
                None \<Rightarrow> True
              | Some c \<Rightarrow>
                  (case phase c of
                     Activating i \<Rightarrow> dialogs s i = None \<and> captured s c \<noteq> None
                   | _ \<Rightarrow> True))
           else True)
      | DeactivateDone t b \<Rightarrow>
          (if b then
             (case lookup (closes s) t of
                Some (Some (cid, args)) \<Rightarrow>
                  (case lookup (calls s) cid of
                     None \<Rightarrow> True
                   | Some c \<Rightarrow>
                       (case phase c of
                          Activated th \<Rightarrow> dialogs s (owner th) = Some cid \<and> captured s c \<noteq> None
                        | _ \<Rightarrow> True))
              | _ \<Rightarrow> True)
           else True)
      | _ \<Rightarrow> True)"

fun orderly :: "dstate \<Rightarrow> event list \<Rightarrow> bool" where
  "orderly s [] = True"
| "orderly s (e # es) = (orderly_step s e \<and> orderly (step s e) es)"


text \<open>Every registry entry refers to an object that carries the key as its name.\<close>

definition names_agree :: "dstate \<Rightarrow> bool" where
  "names_agree s =
     (\<forall>n a. contexts s n = Some a \<longrightarrow> (\<exists>c. lookup (heap s) a = Some c \<and> name c = Some n))"

text \<open>
  How the record of invocation \<open>cid\<close> can differ after a step: not at all, or by the one
  continuation of that invocation that the event runs.
\<close>

definition changed :: "dstate \<Rightarrow> event \<Rightarrow> nat \<Rightarrow> invocation \<Rightarrow> invocation \<Rightarrow> bool" where
  "changed s e cid c c' =
     (c' = c
      \<or> (\<exists>m r. e = AcquireDone cid r \<and> phase c = Acquiring m \<and>
            c' = c\<lparr>phase := (case r of None \<Rightarrow> Abandoned | Some i \<Rightarrow> Activating i)\<rparr>)
      \<or> (\<exists>i. e = ActivateDone cid False \<and> phase c = Activating i \<and>
            c' = c\<lparr>dfd := dfd_resolve (dfd c) [JBool False], phase := Declined\<rparr>)
      \<or> (\<exists>i th. e = ActivateDone cid True \<and> phase c = Activating i \<and> owner th = i \<and>
            c' = c\<lparr>phase := Activated th\<rparr>)
      \<or> (\<exists>t args th. e = DeactivateDone t True \<and> lookup (closes s) t = Some (Some (cid, args)) \<and>
            phase c = Activated th \<and> c' = c\<lparr>dfd := dfd_resolve (dfd c) args\<rparr>))"

text \<open>
  What holds in every state the module can reach: a deferred whose invocation still waits for
  the resolver or the activator is pending; the session an owner carries belongs to an
  invocation that built it for this owner and whose deferred is pending; the references in
  the registry and in the invocations point to objects; and the built-in context is
  registered.
\<close>

definition wf :: "dstate \<Rightarrow> bool" where
  "wf s =
     ((\<forall>cid c. lookup (calls s) cid = Some c \<longrightarrow>
         (case phase c of Acquiring m \<Rightarrow> dfd c = Pending | Activating i \<Rightarrow> dfd c = Pending | _ \<Rightarrow> True) \<and>
         (\<forall>a. dialogContext c = Some a \<longrightarrow> a < length (heap s))) \<and>
      (\<forall>ow cid. dialogs s ow = Some cid \<longrightarrow>
         (\<exists>c th. lookup (calls s) cid = Some c \<and> phase c = Activated th \<and> owner th = ow \<and>
                  dfd c = Pending)) \<and>
      (\<forall>n a. contexts s n = Some a \<longrightarrow> a < length (heap s)) \<and>
      contexts s ''default'' \<noteq> None \<and>
      finite (dom (dialogs s)))"

section \<open>Lemmas about the operations\<close>

subsection \<open>Tables and the shape of each continuation\<close>

lemma lookup_append [simp]: "lookup (xs @ [x]) i = (if i = length xs then Some x else lookup xs i)"
  by (auto simp: lookup_def nth_append)

lemma lookup_update [simp]:
  "lookup (xs[i := x]) j = (if i = j \<and> j < length xs then Some x else lookup xs j)"
  by (auto simp: lookup_def)

lemma lookup_Some_length: "lookup xs i = Some x \<Longrightarrow> i < length xs"
  by (auto simp: lookup_def split: if_splits)

lemma lookup_length [simp]: "lookup xs (length xs) = None"
  by (simp add: lookup_def)









lemmas hooks_defs = addHost_def removeHost_def default_addHost_def default_removeHost_def
  getNextZIndex_def isOpen_def Let_def

lemma on_activated_False:
  "lookup (calls s) cid = Some c \<Longrightarrow> phase c = Activating i \<Longrightarrow>
   on_activated s cid False =
     s\<lparr>calls := (calls s)[cid := c\<lparr>dfd := dfd_resolve (dfd c) [JBool False], phase := Declined\<rparr>]\<rparr>"
  by (simp add: on_activated_def)

lemma on_activated_True:
  "lookup (calls s) cid = Some c \<Longrightarrow> phase c = Activating i \<Longrightarrow>
   \<exists>th. owner th = i \<and>
     calls (on_activated s cid True) = (calls s)[cid := c\<lparr>phase := Activated th\<rparr>] \<and>
     dialogs (on_activated s cid True) = (dialogs s)(i \<mapsto> cid)"
  apply (simp add: on_activated_def hooks_defs split: option.splits hooks.splits prod.splits)
  apply (intro conjI impI allI)
  apply (rule exI, rule conjI, rule_tac [2] refl, simp)+
  done

lemma on_activated_idle:
  "lookup (calls s) cid = None \<or> (\<exists>c. lookup (calls s) cid = Some c \<and> (\<forall>i. phase c \<noteq> Activating i)) \<Longrightarrow>
   on_activated s cid b = s"
  by (auto simp: on_activated_def split: option.splits phase.splits)

lemma on_activated_frame [simp]:
  "heap (on_activated s cid b) = heap s"
  "contexts (on_activated s cid b) = contexts s"
  "members (on_activated s cid b) = members s"
  "closes (on_activated s cid b) = closes s"
  by (simp_all add: on_activated_def hooks_defs split: option.splits phase.splits hooks.splits prod.splits)

lemma on_deactivated_frame [simp]:
  "heap (on_deactivated s t b) = heap s"
  "contexts (on_deactivated s t b) = contexts s"
  "members (on_deactivated s t b) = members s"
  "currentZIndex (on_deactivated s t b) = currentZIndex s"
  by (simp_all add: on_deactivated_def hooks_defs split: option.splits phase.splits hooks.splits prod.splits)

lemma on_deactivated_False:
  "on_deactivated s t False = (case lookup (closes s) t of Some (Some p) \<Rightarrow> s\<lparr>closes := (closes s)[t := None]\<rparr> | _ \<Rightarrow> s)"
  by (simp add: on_deactivated_def split: option.splits prod.splits)

lemma on_deactivated_True:
  "lookup (closes s) t = Some (Some (cid, args)) \<Longrightarrow> lookup (calls s) cid = Some c \<Longrightarrow>
   phase c = Activated th \<Longrightarrow> captured s c = Some (a, dc) \<Longrightarrow>
   calls (on_deactivated s t True) = (calls s)[cid := c\<lparr>dfd := dfd_resolve (dfd c) args\<rparr>] \<and>
   dialogs (on_deactivated s t True) = (dialogs s)(owner th := None) \<and>
   dialogCount (on_deactivated s t True) = dialogCount s - 1 \<and>
   closes (on_deactivated s t True) = (closes s)[t := None] \<and>
   (\<exists>es. effects (on_deactivated s t True) = effects s @ RemoveHost a cid # es)"
  by (auto simp: on_deactivated_def hooks_defs captured_def split: option.splits hooks.splits)

subsection \<open>Calling a property of the manager\<close>

lemma invoke_builtin:
  "members s ''show'' = Some ShowFn \<Longrightarrow> invoke s ''show'' obj d c = Some (Inr (show_dialog s obj d c))"
  by (subst invoke.simps) simp

lemma invoke_Some:
  assumes "invoke s m obj d c = Some r"
  shows "r = Inl TypeError \<or> (\<exists>c'. r = Inr (show_dialog s obj d c'))"
proof (rule invoke.raw_induct
    [where P = "\<lambda>s m obj d c r. r = Inl TypeError \<or> (\<exists>c'. r = Inr (show_dialog s obj d c'))"])
  show "invoke s m obj d c = Some r" by (rule assms)
next
  fix f s m obj d c r
  assume IH: "\<And>s m obj d c r. f s m obj d c = Some r \<Longrightarrow>
                r = Inl TypeError \<or> (\<exists>c'. r = Inr (show_dialog s obj d c'))"
    and body: "(case members s m of None \<Rightarrow> Some (Inl TypeError)
                | Some ShowFn \<Rightarrow> Some (Inr (show_dialog s obj d c))
                | Some (HelperFn n) \<Rightarrow> f s ''show'' obj d (Some n)) = Some r"
  show "r = Inl TypeError \<or> (\<exists>c'. r = Inr (show_dialog s obj d c'))"
  proof (cases "members s m")
    case None
    with body show ?thesis by simp
  next
    case (Some g)
    show ?thesis
    proof (cases g)
      case ShowFn
      with Some body show ?thesis by auto
    next
      case (HelperFn n)
      with Some body have "f s ''show'' obj d (Some n) = Some r" by simp
      then show ?thesis by (rule IH)
    qed
  qed
qed

lemma step_Invoke:
  "step s (Invoke m obj d c) = s \<or> (\<exists>c'. step s (Invoke m obj d c) = fst (show_dialog s obj d c'))"
  proof (cases "invoke s m obj d c")
  case None
  then show ?thesis by (simp add: step_def)
next
  case (Some r)
  from invoke_Some[OF this] Some show ?thesis by (auto simp: step_def)
qed

subsection \<open>What a step does to one invocation\<close>

lemma show_dialog_shape:
  "show_dialog s obj d cx =
     (s\<lparr>calls := calls s @ [new_invocation s d cx (case obj of ModuleId m \<Rightarrow> Acquiring m | Instance i \<Rightarrow> Activating i)],
        effects := effects s @ [case obj of ModuleId m \<Rightarrow> Acquire m | Instance i \<Rightarrow> ActivateItem (length (calls s)) i d]\<rparr>,
      length (calls s))"
  by (cases obj) (simp_all add: show_dialog_def Let_def)

lemma new_invocation_simps [simp]:
  "dfd (new_invocation s d cx ph) = Pending"
  "phase (new_invocation s d cx ph) = ph"
  "dialogContext (new_invocation s d cx ph) = contexts s (or_default cx)"
  "activationData (new_invocation s d cx ph) = d"
  by (simp_all add: new_invocation_def)

lemma captured_heap: "heap s' = heap s \<Longrightarrow> captured s' c = captured s c"
  by (simp add: captured_def split: option.splits)

lemma session_close_calls [simp]:
  "calls (session_close s cid args) = calls s"
  "dialogs (session_close s cid args) = dialogs s"
  "heap (session_close s cid args) = heap s"
  "contexts (session_close s cid args) = contexts s"
  "members (session_close s cid args) = members s"
  "dialogCount (session_close s cid args) = dialogCount s"
  "currentZIndex (session_close s cid args) = currentZIndex s"
  by (simp_all add: session_close_def split: option.splits phase.splits)

lemma step_Close:
  "step s (Close obj rest) = s \<or> (\<exists>cid. getDialog s obj = Inr (Some cid) \<and> step s (Close obj rest) = session_close s cid rest)"
  by (auto simp: step_def close_def split: sum.splits option.splits)

lemma on_acquired_shape:
  "on_acquired s cid r =
     (case lookup (calls s) cid of
        None \<Rightarrow> s
      | Some c \<Rightarrow> (case phase c of
           Acquiring m \<Rightarrow> (case r of
               None \<Rightarrow> s\<lparr>calls := (calls s)[cid := c\<lparr>phase := Abandoned\<rparr>]\<rparr>
             | Some i \<Rightarrow> s\<lparr>calls := (calls s)[cid := c\<lparr>phase := Activating i\<rparr>],
                            effects := effects s @ [ActivateItem cid i (activationData c)]\<rparr>)
         | _ \<Rightarrow> s))"
  by (simp add: on_acquired_def)

lemma addContext_shape:
  "addContext s n a = Inr s' \<Longrightarrow>
     \<exists>c. lookup (heap s) a = Some c \<and>
       s' = s\<lparr>heap := (heap s)[a := c\<lparr>name := Some n\<rparr>], contexts := (contexts s)(n \<mapsto> a),
              members := (members s)(helperName s n \<mapsto> HelperFn n)\<rparr>"
  by (auto simp: addContext_def split: option.splits)

lemma calls_on_acquired:
  assumes "lookup (calls s) cid = Some c"
  shows "\<exists>c'. lookup (calls (on_acquired s k r)) cid = Some c' \<and> changed s (AcquireDone k r) cid c c'"
  using assms
  by (auto simp: on_acquired_shape changed_def lookup_Some_length split: option.splits phase.splits)

lemma calls_on_activated:
  assumes "lookup (calls s) cid = Some c"
  shows "\<exists>c'. lookup (calls (on_activated s k b)) cid = Some c' \<and> changed s (ActivateDone k b) cid c c'"
proof (cases "\<exists>ck i. lookup (calls s) k = Some ck \<and> phase ck = Activating i")
  case False
  then have "on_activated s k b = s"
    by (intro on_activated_idle) (cases "lookup (calls s) k"; auto)
  with assms show ?thesis by (simp add: changed_def)
next
  case True
  then obtain ck i where ck: "lookup (calls s) k = Some ck" "phase ck = Activating i" by blast
  show ?thesis
  proof (cases b)
    case False
    with ck assms show ?thesis
      by (auto simp: on_activated_False changed_def lookup_Some_length)
  next
    case True
    from on_activated_True[OF ck] obtain th where
      "owner th = i" "calls (on_activated s k True) = (calls s)[k := ck\<lparr>phase := Activated th\<rparr>]"
      by blast
    with ck assms True show ?thesis
      by (auto simp: changed_def lookup_Some_length)
  qed
qed

lemma calls_on_deactivated:
  assumes "lookup (calls s) cid = Some c"
  shows "\<exists>c'. lookup (calls (on_deactivated s t b)) cid = Some c' \<and> changed s (DeactivateDone t b) cid c c'"
proof (cases "\<exists>k args ck th. b \<and> lookup (closes s) t = Some (Some (k, args)) \<and> lookup (calls s) k = Some ck
                \<and> phase ck = Activated th \<and> captured s ck \<noteq> None")
  case False
  then have "calls (on_deactivated s t b) = calls s"
    by (auto simp: on_deactivated_def Let_def captured_def split: option.splits phase.splits)
  with assms show ?thesis by (simp add: changed_def)
next
  case True
  then obtain k args ck th a dc where k: "b" "lookup (closes s) t = Some (Some (k, args))"
    "lookup (calls s) k = Some ck" "phase ck = Activated th" "captured s ck = Some (a, dc)"
    by auto
  from on_deactivated_True[OF k(2-5)] k(1)
  have "calls (on_deactivated s t b) = (calls s)[k := ck\<lparr>dfd := dfd_resolve (dfd ck) args\<rparr>]" by simp
  with k assms show ?thesis
    by (auto simp: changed_def lookup_Some_length)
qed

lemma calls_step:
  assumes "lookup (calls s) cid = Some c"
  shows "\<exists>c'. lookup (calls (step s e)) cid = Some c' \<and> changed s e cid c c'"
proof (cases e)
  case (NewContext x)
  with assms show ?thesis by (simp add: step_def changed_def)
next
  case (AddContext n a)
  with assms show ?thesis
    by (auto simp: step_def changed_def split: sum.splits dest!: addContext_shape)
next
  case GetNextZIndex
  with assms show ?thesis by (simp add: step_def changed_def getNextZIndex_def)
next
  case (Invoke m obj d cx)
  from step_Invoke[of s m obj d cx] show ?thesis
  proof
    assume "step s (Invoke m obj d cx) = s"
    with assms Invoke show ?thesis by (simp add: changed_def)
  next
    assume "\<exists>c'. step s (Invoke m obj d cx) = fst (show_dialog s obj d c')"
    then obtain cx' where "step s (Invoke m obj d cx) = fst (show_dialog s obj d cx')" by blast
    moreover from show_dialog_shape[of s obj d cx'] obtain cn where
      "calls (fst (show_dialog s obj d cx')) = calls s @ [cn]" by simp
    ultimately show ?thesis using assms Invoke
      by (auto simp: changed_def dest: lookup_Some_length)
  qed
next
  case (Close obj rest)
  with step_Close[of s obj rest] assms show ?thesis by (auto simp: changed_def)
next
  case (SessionClose k args)
  with assms show ?thesis by (simp add: step_def changed_def)
next
  case (AcquireDone k r)
  with calls_on_acquired[OF assms] show ?thesis by (simp add: step_def)
next
  case (ActivateDone k b)
  with calls_on_activated[OF assms] show ?thesis by (simp add: step_def)
next
  case (DeactivateDone t b)
  with calls_on_deactivated[OF assms] show ?thesis by (simp add: step_def)
qed

subsection \<open>What a step does to the rest of the state\<close>

text \<open>How the back-references change in a step.\<close>

lemma dialogs_step:
  "dialogs (step s e) = dialogs s
   \<or> (\<exists>cid c i. e = ActivateDone cid True \<and> lookup (calls s) cid = Some c \<and> phase c = Activating i \<and>
         dialogs (step s e) = (dialogs s)(i \<mapsto> cid))
   \<or> (\<exists>t cid args c th. e = DeactivateDone t True \<and> lookup (closes s) t = Some (Some (cid, args)) \<and>
         lookup (calls s) cid = Some c \<and> phase c = Activated th \<and> captured s c \<noteq> None \<and>
         dialogs (step s e) = (dialogs s)(owner th := None))"
proof (cases e)
  case (Invoke m obj d cx)
  with step_Invoke[of s m obj d cx] show ?thesis by (auto simp: show_dialog_shape)
next
  case (Close obj rest)
  with step_Close[of s obj rest] show ?thesis by auto
next
  case (ActivateDone k b)
  show ?thesis
  proof (cases "\<exists>ck i. lookup (calls s) k = Some ck \<and> phase ck = Activating i")
    case False
    then have "on_activated s k b = s"
      by (intro on_activated_idle) (cases "lookup (calls s) k"; auto)
    with ActivateDone show ?thesis by (simp add: step_def)
  next
    case True
    then obtain ck i where ck: "lookup (calls s) k = Some ck" "phase ck = Activating i" by blast
    show ?thesis
    proof (cases b)
      case False
      with ck ActivateDone show ?thesis by (simp add: step_def on_activated_False)
    next
      case True
      with on_activated_True[OF ck] ck ActivateDone show ?thesis by (auto simp: step_def)
    qed
  qed
next
  case (DeactivateDone t b)
  show ?thesis
  proof (cases "\<exists>k args ck th. b \<and> lookup (closes s) t = Some (Some (k, args)) \<and> lookup (calls s) k = Some ck
                \<and> phase ck = Activated th \<and> captured s ck \<noteq> None")
    case False
    then have "dialogs (on_deactivated s t b) = dialogs s"
      by (auto simp: on_deactivated_def Let_def captured_def split: option.splits phase.splits)
    with DeactivateDone show ?thesis by (simp add: step_def)
  next
    case True
    then obtain k args ck th a dc where k: "b" "lookup (closes s) t = Some (Some (k, args))"
      "lookup (calls s) k = Some ck" "phase ck = Activated th" "captured s ck = Some (a, dc)"
      by auto
    from on_deactivated_True[OF k(2-5)] k DeactivateDone show ?thesis
      by (auto simp: step_def)
  qed
qed (auto simp: step_def getNextZIndex_def on_acquired_shape split: sum.splits option.splits phase.splits dest!: addContext_shape)

subsection \<open>The invariant\<close>

lemma wfI:
  assumes "\<And>cid c. lookup (calls s) cid = Some c \<Longrightarrow>
             (case phase c of Acquiring m \<Rightarrow> dfd c = Pending | Activating i \<Rightarrow> dfd c = Pending | _ \<Rightarrow> True)"
    and "\<And>cid c a. lookup (calls s) cid = Some c \<Longrightarrow> dialogContext c = Some a \<Longrightarrow> a < length (heap s)"
    and "\<And>ow cid. dialogs s ow = Some cid \<Longrightarrow>
           \<exists>c th. lookup (calls s) cid = Some c \<and> phase c = Activated th \<and> owner th = ow \<and> dfd c = Pending"
    and "\<And>n a. contexts s n = Some a \<Longrightarrow> a < length (heap s)"
    and "contexts s ''default'' \<noteq> None"
    and "finite (dom (dialogs s))"
  shows "wf s"
  using assms unfolding wf_def by blast

lemma wfD:
  assumes "wf s"
  shows wf_pending: "lookup (calls s) cid = Some c \<Longrightarrow>
             (case phase c of Acquiring m \<Rightarrow> dfd c = Pending | Activating i \<Rightarrow> dfd c = Pending | _ \<Rightarrow> True)"
    and wf_captured: "lookup (calls s) cid = Some c \<Longrightarrow> dialogContext c = Some a \<Longrightarrow> a < length (heap s)"
    and wf_attached: "dialogs s ow = Some cid \<Longrightarrow>
           \<exists>c th. lookup (calls s) cid = Some c \<and> phase c = Activated th \<and> owner th = ow \<and> dfd c = Pending"
    and wf_registry: "contexts s n = Some a \<Longrightarrow> a < length (heap s)"
    and wf_default: "contexts s ''default'' \<noteq> None"
    and wf_finite: "finite (dom (dialogs s))"
  using assms unfolding wf_def by blast+

lemma wf_cong:
  "calls s' = calls s \<Longrightarrow> dialogs s' = dialogs s \<Longrightarrow> heap s' = heap s \<Longrightarrow>
   contexts s' = contexts s \<Longrightarrow> wf s' = wf s"
  by (simp add: wf_def)

lemma wf_show_dialog:
  assumes "wf s" shows "wf (fst (show_dialog s obj d cx))"
proof (rule wfI)
  fix cid c assume "lookup (calls (fst (show_dialog s obj d cx))) cid = Some c"
  then show "case phase c of Acquiring m \<Rightarrow> dfd c = Pending | Activating i \<Rightarrow> dfd c = Pending | _ \<Rightarrow> True"
    using wf_pending[OF assms, of cid c] by (auto simp: show_dialog_shape split: if_splits target.splits)
next
  fix cid c a assume "lookup (calls (fst (show_dialog s obj d cx))) cid = Some c" "dialogContext c = Some a"
  then show "a < length (heap (fst (show_dialog s obj d cx)))"
    using wf_captured[OF assms, of cid c a] wf_registry[OF assms, of "or_default cx" a]
    by (auto simp: show_dialog_shape split: if_splits)
next
  fix ow cid assume "dialogs (fst (show_dialog s obj d cx)) ow = Some cid"
  then have "dialogs s ow = Some cid" by (simp add: show_dialog_shape)
  from wf_attached[OF assms this] show "\<exists>c th. lookup (calls (fst (show_dialog s obj d cx))) cid = Some c \<and>
      phase c = Activated th \<and> owner th = ow \<and> dfd c = Pending"
    by (auto simp: show_dialog_shape dest: lookup_Some_length)
next
  fix n a assume "contexts (fst (show_dialog s obj d cx)) n = Some a"
  then show "a < length (heap (fst (show_dialog s obj d cx)))"
    using wf_registry[OF assms, of n a] by (simp add: show_dialog_shape)
next
  show "contexts (fst (show_dialog s obj d cx)) ''default'' \<noteq> None"
    using wf_default[OF assms] by (simp add: show_dialog_shape)
next
  show "finite (dom (dialogs (fst (show_dialog s obj d cx))))"
    using wf_finite[OF assms] by (simp add: show_dialog_shape)
qed

lemma wf_on_acquired: "wf s \<Longrightarrow> wf (on_acquired s cid r)"
  unfolding wf_def on_acquired_shape
  by (auto split: option.splits phase.splits if_splits) fastforce+

lemma wf_addContext: "wf s \<Longrightarrow> addContext s n a = Inr s' \<Longrightarrow> wf s'"
  unfolding wf_def
  by (auto dest!: addContext_shape dest: lookup_Some_length split: if_splits)

lemma wf_on_activated: 
  assumes "wf s" shows "wf (on_activated s k b)"
proof (cases "\<exists>ck i. lookup (calls s) k = Some ck \<and> phase ck = Activating i")
  case False
  then have "on_activated s k b = s"
    by (intro on_activated_idle) (cases "lookup (calls s) k"; auto)
  with assms show ?thesis by simp
next
  case True
  then obtain ck i where ck: "lookup (calls s) k = Some ck" "phase ck = Activating i" by blast
  show ?thesis
  proof (cases b)
    case False
    have "wf (s\<lparr>calls := (calls s)[k := ck\<lparr>dfd := dfd_resolve (dfd ck) [JBool False], phase := Declined\<rparr>]\<rparr>)"
      using assms ck unfolding wf_def
      by (auto split: if_splits) fastforce+
    with False ck show ?thesis by (simp add: on_activated_False)
  next
    case True
    from on_activated_True[OF ck] obtain th where th: "owner th = i"
      "calls (on_activated s k True) = (calls s)[k := ck\<lparr>phase := Activated th\<rparr>]"
      "dialogs (on_activated s k True) = (dialogs s)(i \<mapsto> k)" by blast
    have pend: "dfd ck = Pending" using wf_pending[OF assms ck(1)] ck(2) by simp
    have "wf (on_activated s k True)"
    proof (rule wfI)
      fix cid c assume "lookup (calls (on_activated s k True)) cid = Some c"
      then show "case phase c of Acquiring m \<Rightarrow> dfd c = Pending | Activating i \<Rightarrow> dfd c = Pending | _ \<Rightarrow> True"
        using th wf_pending[OF assms, of cid c] by (auto split: if_splits)
    next
      fix cid c a assume "lookup (calls (on_activated s k True)) cid = Some c" "dialogContext c = Some a"
      then show "a < length (heap (on_activated s k True))"
        using th wf_captured[OF assms, of cid _ a] ck by (auto split: if_splits)
    next
      fix ow cid assume d: "dialogs (on_activated s k True) ow = Some cid"
      show "\<exists>c th. lookup (calls (on_activated s k True)) cid = Some c \<and> phase c = Activated th \<and> owner th = ow \<and> dfd c = Pending"
      proof (cases "cid = k")
        case True
        from d th True have "ow = i"
          using wf_attached[OF assms, of ow k] ck by (auto split: if_splits)
        with True th ck pend show ?thesis by (auto dest: lookup_Some_length)
      next
        case False
        with d th have "dialogs s ow = Some cid" by (auto split: if_splits)
        from wf_attached[OF assms this] False th show ?thesis by auto
      qed
    next
      fix n a assume "contexts (on_activated s k True) n = Some a"
      then show "a < length (heap (on_activated s k True))" using wf_registry[OF assms] by simp
    next
      show "contexts (on_activated s k True) ''default'' \<noteq> None" using wf_default[OF assms] by simp
    next
      show "finite (dom (dialogs (on_activated s k True)))" using wf_finite[OF assms] th by simp
    qed
    with True show ?thesis by simp
  qed
qed

lemma wf_on_deactivated:
  assumes "wf s" shows "wf (on_deactivated s t b)"
proof (cases "\<exists>k args ck th. b \<and> lookup (closes s) t = Some (Some (k, args)) \<and> lookup (calls s) k = Some ck
                \<and> phase ck = Activated th \<and> captured s ck \<noteq> None")
  case False
  then have "calls (on_deactivated s t b) = calls s" "dialogs (on_deactivated s t b) = dialogs s"
    by (auto simp: on_deactivated_def Let_def captured_def split: option.splits phase.splits)
  with assms show ?thesis by (simp add: wf_cong[of "on_deactivated s t b" s])
next
  case True
  then obtain k args ck th a dc where k: "b" "lookup (closes s) t = Some (Some (k, args))"
    "lookup (calls s) k = Some ck" "phase ck = Activated th" "captured s ck = Some (a, dc)"
    by auto
  let ?s = "on_deactivated s t True"
  from on_deactivated_True[OF k(2-5)] have sh:
    "calls ?s = (calls s)[k := ck\<lparr>dfd := dfd_resolve (dfd ck) args\<rparr>]"
    "dialogs ?s = (dialogs s)(owner th := None)" by auto
  have "wf ?s"
  proof (rule wfI)
    fix cid c assume "lookup (calls ?s) cid = Some c"
    then show "case phase c of Acquiring m \<Rightarrow> dfd c = Pending | Activating i \<Rightarrow> dfd c = Pending | _ \<Rightarrow> True"
      using sh k wf_pending[OF assms, of cid c] by (auto split: if_splits)
  next
    fix cid c a assume "lookup (calls ?s) cid = Some c" "dialogContext c = Some a"
    then show "a < length (heap ?s)"
      using sh wf_captured[OF assms, of cid _ a] k by (auto split: if_splits)
  next
    fix ow cid assume d: "dialogs ?s ow = Some cid"
    then have ow: "ow \<noteq> owner th" "dialogs s ow = Some cid" using sh by (auto split: if_splits)
    from wf_attached[OF assms ow(2)] obtain c th' where c: "lookup (calls s) cid = Some c"
      "phase c = Activated th'" "owner th' = ow" "dfd c = Pending" by blast
    with k ow have "cid \<noteq> k" by auto
    with c sh show "\<exists>c th. lookup (calls ?s) cid = Some c \<and> phase c = Activated th \<and> owner th = ow \<and> dfd c = Pending"
      by auto
  next
    fix n a assume "contexts ?s n = Some a"
    then show "a < length (heap ?s)" using wf_registry[OF assms] by simp
  next
    show "contexts ?s ''default'' \<noteq> None" using wf_default[OF assms] by simp
  next
    show "finite (dom (dialogs ?s))" using wf_finite[OF assms] sh by simp
  qed
  with k show ?thesis by simp
qed

lemma wf_step: assumes "wf s" shows "wf (step s e)"
proof (cases e)
  case (NewContext x)
  with assms show ?thesis unfolding wf_def step_def by (auto simp: less_Suc_eq)
next
  case (AddContext n a)
  with assms wf_addContext[OF assms] show ?thesis by (auto simp: step_def split: sum.splits)
next
  case GetNextZIndex
  with assms show ?thesis by (simp add: step_def getNextZIndex_def wf_def)
next
  case (Invoke m obj d cx)
  with step_Invoke[of s m obj d cx] assms show ?thesis by (auto simp: wf_show_dialog)
next
  case (Close obj rest)
  with step_Close[of s obj rest] assms show ?thesis
    by (auto simp: wf_cong[of "session_close s _ _" s])
next
  case (SessionClose k args)
  with assms show ?thesis by (simp add: step_def wf_cong[of "session_close s _ _" s])
next
  case (AcquireDone k r)
  with wf_on_acquired[OF assms] show ?thesis by (simp add: step_def)
next
  case (ActivateDone k b)
  with wf_on_activated[OF assms] show ?thesis by (simp add: step_def)
next
  case (DeactivateDone t b)
  with wf_on_deactivated[OF assms] show ?thesis by (simp add: step_def)
qed

lemma helperName_default: "helperName s ''default'' = ''showDefault''"
  by (simp add: helperName_def ascii_def toUpperCase_def)

lemma init_eq:
  "init = \<lparr>heap = [default_literal\<lparr>name := Some ''default''\<rparr>], contexts = [''default'' \<mapsto> 0],
           members = [''show'' \<mapsto> ShowFn, ''showDefault'' \<mapsto> HelperFn ''default''],
           dialogCount = 0, currentZIndex = 1050, dialogs = Map.empty, calls = [], closes = [],
           effects = [], capitalized = (\<lambda>n. n)\<rparr>"
  by (simp add: init_def step_def boot_def addContext_def lookup_def helperName_default)

lemma loaded_eq:
  "step (boot\<lparr>capitalized := up\<rparr>) (AddContext ''default'' 0) = init\<lparr>capitalized := up\<rparr>"
  by (simp add: init_eq step_def boot_def addContext_def lookup_def helperName_default)

lemma wf_init: "wf init"
  by (simp add: init_eq wf_def lookup_def)

lemma reachable_init: "reachable init"
  using reachable_loaded[of "capitalized init"] by (simp add: loaded_eq)

lemma reachable_wf: "reachable s \<Longrightarrow> wf s"
proof (induction rule: reachable.induct)
  case (reachable_loaded up)
  have "wf (init\<lparr>capitalized := up\<rparr>) = wf init" by (rule wf_cong) simp_all
  then show ?case by (simp add: loaded_eq wf_init)
next
  case (reachable_step s e)
  then show ?case by (simp add: wf_step)
qed

lemma reachable_run: "reachable s \<Longrightarrow> reachable (run s es)"
  by (induction es arbitrary: s) (simp_all add: reachable_step)

text \<open>The definitions unfolded to run the model on a concrete execution.\<close>

lemmas eval = step_def init_eq show_dialog_def new_invocation_def on_acquired_def on_activated_def
  on_deactivated_def session_close_def close_def getDialog_def read_dialog_def captured_def addHost_def
  removeHost_def default_addHost_def default_removeHost_def getNextZIndex_def isOpen_def
  createCompositionSettings_def addContext_def lookup_def or_default_def future_def Let_def
  dfd_resolve_def default_literal_def invoke.simps

section \<open>The promise returned by show\<close>

lemma future_Some: "future s cid = Some f \<longleftrightarrow> (\<exists>c. lookup (calls s) cid = Some c \<and> dfd c = f)"
  by (auto simp: future_def)

lemma dfd_resolve_simps [simp]:
  "dfd_resolve Pending args = Resolved args"
  "dfd_resolve (Resolved v) args = Resolved v"
  "dfd_resolve (Rejected r) args = Rejected r"
  by (simp_all add: dfd_resolve_def)

lemma resolved_step:
  assumes "future s cid = Some (Resolved v)"
  shows "future (step s e) cid = Some (Resolved v)"
proof -
  from assms obtain c where c: "lookup (calls s) cid = Some c" "dfd c = Resolved v"
    by (auto simp: future_Some)
  from calls_step[OF c(1), of e] obtain c' where
    "lookup (calls (step s e)) cid = Some c'" "changed s e cid c c'" by blast
  with c show ?thesis by (auto simp: future_Some changed_def)
qed

lemma resolved_run:
  "future s cid = Some (Resolved v) \<Longrightarrow> future (run s es) cid = Some (Resolved v)"
  by (induction es arbitrary: s) (simp_all add: resolved_step)

lemma settling_step:
  assumes "future s cid = Some Pending" "future (step s e) cid \<noteq> Some Pending"
  shows "(\<exists>c i. e = ActivateDone cid False \<and> lookup (calls s) cid = Some c \<and> phase c = Activating i \<and>
            future (step s e) cid = Some (Resolved [JBool False]))
       \<or> (\<exists>t args. e = DeactivateDone t True \<and> lookup (closes s) t = Some (Some (cid, args)) \<and>
            future (step s e) cid = Some (Resolved args))"
proof -
  from assms obtain c where c: "lookup (calls s) cid = Some c" "dfd c = Pending"
    by (auto simp: future_Some)
  from calls_step[OF c(1), of e] obtain c' where
    "lookup (calls (step s e)) cid = Some c'" "changed s e cid c c'" by blast
  with c assms(2) show ?thesis by (auto simp: future_Some changed_def)
qed

lemma future_show_dialog:
  "future (fst (show_dialog s obj d cx)) (snd (show_dialog s obj d cx)) = Some Pending"
  by (simp add: show_dialog_shape future_def)

lemma pending_close_resolves:
  assumes "reachable s" "open_session s ow cid" "lookup (closes s) t = Some (Some (cid, args))"
  shows "future s cid = Some Pending \<and>
         future (step s (DeactivateDone t True)) cid = Some (Resolved args)"
proof -
  from assms(2) have att: "dialogs s ow = Some cid" by (simp add: open_session_def)
  from wf_attached[OF reachable_wf[OF assms(1)] att] obtain c th where
    c: "lookup (calls s) cid = Some c" "phase c = Activated th" "dfd c = Pending"
    by blast
  from assms(2) c(1) obtain a dc where cap: "captured s c = Some (a, dc)"
    by (auto simp: open_session_def)
  from on_deactivated_True[OF assms(3) c(1,2) cap] c show ?thesis
    by (simp add: step_def future_def lookup_Some_length)
qed

text \<open>
  \<^bold>\<open>C1\<close>  The promise returned by \<open>show\<close> is pending when \<open>show\<close> returns and settles at most
  once.  Once it is resolved with some value, no later event of any execution changes it.  The
  only events that take it out of the pending state are the activation continuation of this
  invocation answering \<open>false\<close>, which resolves it with \<open>false\<close>, and a deactivation
  continuation of this invocation's session answering \<open>true\<close>, which resolves it with exactly
  the arguments of the \<open>close\<close> call that registered the continuation; it is never rejected.
  While the session is open the promise is pending, and the first \<open>close\<close> whose deactivation
  succeeds resolves it with its own arguments.
\<close>

theorem show_future_settles_once:
  "future (fst (show_dialog s obj d cx)) (snd (show_dialog s obj d cx)) = Some Pending \<and>
   (future s cid = Some (Resolved v) \<longrightarrow> future (run s es) cid = Some (Resolved v)) \<and>
   (future s cid = Some Pending \<and> future (step s e) cid \<noteq> Some Pending \<longrightarrow>
      (\<exists>c i. e = ActivateDone cid False \<and> lookup (calls s) cid = Some c \<and> phase c = Activating i \<and>
              future (step s e) cid = Some (Resolved [JBool False])) \<or>
      (\<exists>t args. e = DeactivateDone t True \<and> lookup (closes s) t = Some (Some (cid, args)) \<and>
              future (step s e) cid = Some (Resolved args))) \<and>
   (reachable s \<and> open_session s ow cid \<and> lookup (closes s) t = Some (Some (cid, args)) \<longrightarrow>
      future s cid = Some Pending \<and>
      future (step s (DeactivateDone t True)) cid = Some (Resolved args))"
  using resolved_run[of s cid v es] settling_step[of s cid e] future_show_dialog[of s obj d cx]
    pending_close_resolves[where s = s and cid = cid and ow = ow and t = t and args = args]
  by blast

theorem show_future_settles_once_witness:
  "future (step init (Invoke ''show'' (Instance 7) JUndefined None)) 0 = Some Pending \<and>
   future (step (step init (Invoke ''show'' (Instance 7) JUndefined None)) (ActivateDone 0 False)) 0
     = Some (Resolved [JBool False]) \<and>
   future (run (step (step init (Invoke ''show'' (Instance 7) JUndefined None)) (ActivateDone 0 False))
             [Close (JObj 7) [JStr ''X''], SessionClose 0 [JStr ''Y''], DeactivateDone 0 True]) 0
     = Some (Resolved [JBool False]) \<and>
   reachable (run init [Invoke ''show'' (Instance 7) JUndefined None, ActivateDone 0 True,
                        Close (JObj 7) [JStr ''X'']]) \<and>
   open_session (run init [Invoke ''show'' (Instance 7) JUndefined None, ActivateDone 0 True,
                           Close (JObj 7) [JStr ''X'']]) 7 0 \<and>
   future (run init [Invoke ''show'' (Instance 7) JUndefined None, ActivateDone 0 True,
                     Close (JObj 7) [JStr ''X'']]) 0 = Some Pending \<and>
   future (step (run init [Invoke ''show'' (Instance 7) JUndefined None, ActivateDone 0 True,
                     Close (JObj 7) [JStr ''X'']]) (DeactivateDone 0 True)) 0
     = Some (Resolved [JStr ''X''])"
proof -
  have r: "reachable (run init [Invoke ''show'' (Instance 7) JUndefined None, ActivateDone 0 True,
                        Close (JObj 7) [JStr ''X'']])"
    by (rule reachable_run[OF reachable_init])
  show ?thesis
    using r
      show_future_settles_once
        [where s = "step (step init (Invoke ''show'' (Instance 7) JUndefined None)) (ActivateDone 0 False)"
           and cid = 0 and v = "[JBool False]"
           and es = "[Close (JObj 7) [JStr ''X''], SessionClose 0 [JStr ''Y''], DeactivateDone 0 True]"
           and e = "DeactivateDone 0 True" and obj = "Instance 7" and d = JUndefined and cx = None
           and ow = 7 and t = 0 and args = "[]"]
      show_future_settles_once
        [where s = "run init [Invoke ''show'' (Instance 7) JUndefined None, ActivateDone 0 True,
                              Close (JObj 7) [JStr ''X'']]"
           and cid = 0 and v = "[]" and es = "[]" and e = "DeactivateDone 0 True"
           and obj = "Instance 7" and d = JUndefined and cx = None
           and ow = 7 and t = 0 and args = "[JStr ''X'']"]
    by (simp add: eval open_session_def)
qed

lemma abandoned_step:
  assumes "lookup (calls s) cid = Some c" "phase c = Abandoned" "dfd c = Pending"
  shows "\<exists>c'. lookup (calls (step s e)) cid = Some c' \<and> phase c' = Abandoned \<and> dfd c' = Pending"
proof -
  from calls_step[OF assms(1), of e] obtain c' where
    "lookup (calls (step s e)) cid = Some c'" "changed s e cid c c'" by blast
  with assms show ?thesis by (auto simp: changed_def)
qed

lemma abandoned_run:
  "lookup (calls s) cid = Some c \<Longrightarrow> phase c = Abandoned \<Longrightarrow> dfd c = Pending \<Longrightarrow>
   future (run s es) cid = Some Pending"
proof (induction es arbitrary: s c)
  case Nil
  then show ?case by (simp add: future_def)
next
  case (Cons e es)
  from abandoned_step[OF Cons.prems, of e] obtain c' where
    "lookup (calls (step s e)) cid = Some c'" "phase c' = Abandoned" "dfd c' = Pending" by blast
  from Cons.IH[OF this] show ?case by simp
qed

text \<open>
  \<^bold>\<open>C2\<close>, as amended.  The claim says that a failing identifier resolver rejects the promise
  returned by \<open>show\<close>.  The source registers a success callback only, on \<open>system.acquire\<close>, and
  calls \<open>reject\<close> nowhere: after the failure the promise is still pending.  What holds instead:
  when \<open>show\<close> is given a module id and the resolver fails, the promise stays pending in every
  continuation of the execution, and the failure changes neither the counter nor the
  back-references nor the calls made to the collaborators.
\<close>

theorem failed_acquire_leaves_future_pending:
  "(let (s1, p) = show_dialog s (ModuleId m) d cx;
        s2 = step s1 (AcquireDone p None)
    in future s1 p = Some Pending \<and> future (run s2 es) p = Some Pending \<and>
       dialogCount s2 = dialogCount s \<and> dialogs s2 = dialogs s \<and> effects s2 = effects s1 \<and>
       map_option phase (lookup (calls s2) p) = Some Abandoned)"
proof -
  let ?c = "new_invocation s d cx (Acquiring m)"
  let ?s1 = "s\<lparr>calls := calls s @ [?c], effects := effects s @ [Acquire m]\<rparr>"
  let ?p = "length (calls s)"
  let ?s2 = "?s1\<lparr>calls := (calls ?s1)[?p := ?c\<lparr>phase := Abandoned\<rparr>]\<rparr>"
  have s2: "step ?s1 (AcquireDone ?p None) = ?s2"
    by (simp add: step_def on_acquired_shape)
  have "future (run ?s2 es) ?p = Some Pending"
    by (rule abandoned_run[where c = "?c\<lparr>phase := Abandoned\<rparr>"]) simp_all
  then show ?thesis
    by (simp add: show_dialog_shape s2 Let_def future_def)
qed

theorem failed_acquire_leaves_future_pending_witness:
  "future (run (step (fst (show_dialog init (ModuleId ''missing'') JUndefined None)) (AcquireDone 0 None))
             [ActivateDone 0 True, Close (JObj 0) [], SessionClose 0 [], DeactivateDone 0 True]) 0
     = Some Pending"
proof -
  have c: "calls init = []" by (simp add: init_eq)
  show ?thesis
    using failed_acquire_leaves_future_pending
            [of init "''missing''" JUndefined None
                "[ActivateDone 0 True, Close (JObj 0) [], SessionClose 0 [], DeactivateDone 0 True]"]
    by (simp add: show_dialog_shape Let_def c)
qed

text \<open>
  The execution that refutes \<^bold>\<open>C2\<close> as stated: the module cannot be acquired, and the promise is
  pending, not rejected.
\<close>

theorem failed_acquire_counterexample:
  "future (run init [Invoke ''show'' (ModuleId ''missing'') JUndefined None, AcquireDone 0 None]) 0
     = Some Pending"
  by (simp add: eval)

text \<open>
  \<^bold>\<open>C3\<close>  In every reachable state, when the activator answers \<open>false\<close> to the activation
  that an invocation of \<open>show\<close> is waiting for, the promise of that invocation is resolved with
  \<open>false\<close>; the counter and with it \<open>isOpen\<close> are unchanged, no back-reference is added or
  removed, and nothing is called: no \<open>addHost\<close>, no z-index is allocated, nothing is composed.
\<close>

theorem declined_activation:
  assumes "reachable s" "lookup (calls s) cid = Some c" "phase c = Activating i"
  shows "future (step s (ActivateDone cid False)) cid = Some (Resolved [JBool False]) \<and>
         dialogCount (step s (ActivateDone cid False)) = dialogCount s \<and>
         isOpen (step s (ActivateDone cid False)) = isOpen s \<and>
         dialogs (step s (ActivateDone cid False)) = dialogs s \<and>
         effects (step s (ActivateDone cid False)) = effects s \<and>
         currentZIndex (step s (ActivateDone cid False)) = currentZIndex s \<and>
         closes (step s (ActivateDone cid False)) = closes s"
proof -
  have "dfd c = Pending"
    using wf_pending[OF reachable_wf[OF assms(1)] assms(2)] assms(3) by simp
  with assms(2,3) show ?thesis
    by (simp add: step_def on_activated_False future_def isOpen_def lookup_Some_length)
qed

theorem declined_activation_witness:
  "reachable (step init (Invoke ''show'' (Instance 7) (JStr ''data'') None)) \<and>
   lookup (calls (step init (Invoke ''show'' (Instance 7) (JStr ''data'') None))) 0
     = Some (new_invocation init (JStr ''data'') None (Activating 7)) \<and>
   future (step (step init (Invoke ''show'' (Instance 7) (JStr ''data'') None)) (ActivateDone 0 False)) 0
     = Some (Resolved [JBool False]) \<and>
   dialogCount (step (step init (Invoke ''show'' (Instance 7) (JStr ''data'') None)) (ActivateDone 0 False)) = 0 \<and>
   dialogs (step (step init (Invoke ''show'' (Instance 7) (JStr ''data'') None)) (ActivateDone 0 False)) 7 = None \<and>
   effects (step (step init (Invoke ''show'' (Instance 7) (JStr ''data'') None)) (ActivateDone 0 False))
     = [ActivateItem 0 7 (JStr ''data'')]"
proof -
  have r: "reachable (step init (Invoke ''show'' (Instance 7) (JStr ''data'') None))"
    by (rule reachable_step[OF reachable_init])
  have l: "lookup (calls (step init (Invoke ''show'' (Instance 7) (JStr ''data'') None))) 0
             = Some (new_invocation init (JStr ''data'') None (Activating 7))"
    by (simp add: eval)
  have p: "phase (new_invocation init (JStr ''data'') None (Activating 7)) = Activating 7"
    by simp
  show ?thesis
    using r l declined_activation[OF r l p] by (simp add: eval)
qed


section \<open>Closing a dialog\<close>

lemma or_default_None [simp]: "or_default None = ''default''"
  by (simp add: or_default_def)

lemma getDialog_JObj [simp]: "getDialog s (JObj ow) = Inr (dialogs s ow)"
  by (simp add: getDialog_def read_dialog_def)

lemma step_Close_attached:
  "dialogs s ow = Some cid \<Longrightarrow> step s (Close (JObj ow) xs) = session_close s cid xs"
  by (simp add: step_def close_def)

lemma session_close_Activated:
  "lookup (calls s) cid = Some c \<Longrightarrow> phase c = Activated th \<Longrightarrow>
   session_close s cid xs =
     s\<lparr>closes := closes s @ [Some (cid, xs)], effects := effects s @ [DeactivateItem cid (owner th) True]\<rparr>"
  by (simp add: session_close_def)

text \<open>
  \<^bold>\<open>C4\<close>  Take an open session in a reachable state and call \<open>close\<close> on its owner.  When the
  activator rejects the deactivation, the continuation changes nothing: the counter, the
  back-references and the invocations are as before, \<open>removeHost\<close> is not called (the only
  call made is the \<open>deactivateItem\<close> of the \<open>close\<close> itself), the promise is still pending and
  the session is still open.  A second \<open>close\<close> whose deactivation succeeds decrements the
  counter, calls \<open>removeHost\<close>, removes the back-reference and resolves the promise with the
  arguments of that second call.
\<close>

theorem rejected_deactivation_keeps_dialog_open:
  assumes "reachable s" "open_session s ow cid"
  shows "(let s1 = step s (Close (JObj ow) xs);
              s2 = step s1 (DeactivateDone (length (closes s)) False);
              s3 = step s2 (Close (JObj ow) ys);
              s4 = step s3 (DeactivateDone (length (closes s2)) True)
          in effects s1 = effects s @ [DeactivateItem cid ow True] \<and>
             dialogCount s2 = dialogCount s \<and> dialogs s2 = dialogs s \<and> effects s2 = effects s1 \<and>
             calls s2 = calls s \<and> future s2 cid = Some Pending \<and> open_session s2 ow cid \<and>
             dialogCount s4 = dialogCount s - 1 \<and> dialogs s4 ow = None \<and>
             future s4 cid = Some (Resolved ys) \<and> (\<exists>a. RemoveHost a cid \<in> set (effects s4)))"
proof -
  from assms(2) have att: "dialogs s ow = Some cid" by (simp add: open_session_def)
  from wf_attached[OF reachable_wf[OF assms(1)] att] obtain c th where
    c: "lookup (calls s) cid = Some c" "phase c = Activated th" "owner th = ow" "dfd c = Pending"
    by blast
  from assms(2) c(1) obtain a dc where cap: "captured s c = Some (a, dc)"
    by (auto simp: open_session_def)
  define s1 where "s1 = step s (Close (JObj ow) xs)"
  define s2 where "s2 = step s1 (DeactivateDone (length (closes s)) False)"
  define s3 where "s3 = step s2 (Close (JObj ow) ys)"
  define s4 where "s4 = step s3 (DeactivateDone (length (closes s2)) True)"
  have s1: "s1 = s\<lparr>closes := closes s @ [Some (cid, xs)], effects := effects s @ [DeactivateItem cid ow True]\<rparr>"
    unfolding s1_def using att c by (simp add: step_Close_attached session_close_Activated)
  have s2: "s2 = s1\<lparr>closes := (closes s1)[length (closes s) := None]\<rparr>"
    unfolding s2_def by (simp add: step_def on_deactivated_False s1)
  have s2': "dialogs s2 = dialogs s" "calls s2 = calls s" "heap s2 = heap s"
    "length (closes s2) = Suc (length (closes s))" "dialogCount s2 = dialogCount s"
    "effects s2 = effects s1"
    by (simp_all add: s2 s1)
  have s3: "s3 = s2\<lparr>closes := closes s2 @ [Some (cid, ys)], effects := effects s2 @ [DeactivateItem cid ow True]\<rparr>"
    unfolding s3_def using att c s2' by (simp add: step_Close_attached session_close_Activated)
  have heap3: "heap s3 = heap s" by (simp add: s3 s2')
  have cap3: "captured s3 c = Some (a, dc)" using cap by (simp add: captured_heap[OF heap3])
  have "lookup (closes s3) (length (closes s2)) = Some (Some (cid, ys))"
    "lookup (calls s3) cid = Some c"
    using c by (simp_all add: s3 s2')
  from on_deactivated_True[OF this(1,2) c(2) cap3]
  have s4: "calls s4 = (calls s3)[cid := c\<lparr>dfd := dfd_resolve (dfd c) ys\<rparr>]"
    "dialogs s4 = (dialogs s3)(owner th := None)" "dialogCount s4 = dialogCount s3 - 1"
    "\<exists>es. effects s4 = effects s3 @ RemoveHost a cid # es"
    unfolding s4_def by (simp_all add: step_def)
  have "future s4 cid = Some (Resolved ys)"
    using c s4(1) by (simp add: future_def s3 s2' lookup_Some_length)
  moreover have "dialogs s4 ow = None" using s4(2) c(3) by simp
  moreover have "dialogCount s4 = dialogCount s - 1" using s4(3) by (simp add: s3 s2')
  moreover have "\<exists>a. RemoveHost a cid \<in> set (effects s4)" using s4(4) by auto
  moreover have "future s2 cid = Some Pending" using c by (simp add: future_def s2')
  moreover have "open_session s2 ow cid"
    using assms(2) c cap by (simp add: open_session_def s2' captured_heap[OF s2'(3)])
  moreover have "effects s1 = effects s @ [DeactivateItem cid ow True]" by (simp add: s1)
  ultimately show ?thesis
    using s2' unfolding Let_def s1_def[symmetric] s2_def[symmetric] s3_def[symmetric] s4_def[symmetric]
    by simp
qed

theorem rejected_deactivation_keeps_dialog_open_witness:
  "reachable (run init [Invoke ''show'' (Instance 7) JUndefined None, ActivateDone 0 True]) \<and>
   open_session (run init [Invoke ''show'' (Instance 7) JUndefined None, ActivateDone 0 True]) 7 0 \<and>
   dialogCount (run init [Invoke ''show'' (Instance 7) JUndefined None, ActivateDone 0 True,
                          Close (JObj 7) [JStr ''A''], DeactivateDone 0 False]) = 1 \<and>
   future (run init [Invoke ''show'' (Instance 7) JUndefined None, ActivateDone 0 True,
                     Close (JObj 7) [JStr ''A''], DeactivateDone 0 False]) 0 = Some Pending \<and>
   dialogCount (run init [Invoke ''show'' (Instance 7) JUndefined None, ActivateDone 0 True,
                          Close (JObj 7) [JStr ''A''], DeactivateDone 0 False,
                          Close (JObj 7) [JStr ''B''], DeactivateDone 1 True]) = 0 \<and>
   future (run init [Invoke ''show'' (Instance 7) JUndefined None, ActivateDone 0 True,
                     Close (JObj 7) [JStr ''A''], DeactivateDone 0 False,
                     Close (JObj 7) [JStr ''B''], DeactivateDone 1 True]) 0 = Some (Resolved [JStr ''B''])"
proof -
  have r: "reachable (run init [Invoke ''show'' (Instance 7) JUndefined None, ActivateDone 0 True])"
    by (rule reachable_run[OF reachable_init])
  have o: "open_session (run init [Invoke ''show'' (Instance 7) JUndefined None, ActivateDone 0 True]) 7 0"
    by (simp add: eval open_session_def)
  show ?thesis
    using r o rejected_deactivation_keeps_dialog_open[OF r o, of "[JStr ''A'']" "[JStr ''B'']"]
    by (simp add: eval)
qed

text \<open>
  \<^bold>\<open>C5\<close>  In every reachable state the default context is registered, and \<open>show(owner)\<close> in
  a registered context (so also with no context name) whose activation succeeds attaches the
  session to the owner and leaves the promise pending; a following \<open>close(owner, args...)\<close>
  whose deactivation succeeds resolves that promise with the arguments, and afterwards
  \<open>getDialog(owner)\<close> finds no session.
\<close>

theorem show_then_close_resolves:
  assumes "reachable s"
  shows "getContext s None \<noteq> None \<and>
         (getContext s cx \<noteq> None \<longrightarrow>
           (let (s1, p) = show_dialog s (Instance ow) d cx;
                s2 = step s1 (ActivateDone p True);
                s3 = step s2 (Close (JObj ow) xs);
                s4 = step s3 (DeactivateDone (length (closes s2)) True)
            in future s2 p = Some Pending \<and> getDialog s2 (JObj ow) = Inr (Some p) \<and>
               future s4 p = Some (Resolved xs) \<and> getDialog s4 (JObj ow) = Inr None))"
proof (intro conjI impI)
  note wf = reachable_wf[OF assms]
  show "getContext s None \<noteq> None" using wf_default[OF wf] by (simp add: getContext_def)
  assume "getContext s cx \<noteq> None"
  then obtain a where a: "contexts s (or_default cx) = Some a" by (auto simp: getContext_def)
  from wf_registry[OF wf a] obtain dc where dc: "lookup (heap s) a = Some dc"
    by (auto simp: lookup_def)
  define p where "p = length (calls s)"
  define c0 where "c0 = new_invocation s d cx (Activating ow)"
  define s1 where "s1 = s\<lparr>calls := calls s @ [c0], effects := effects s @ [ActivateItem p ow d]\<rparr>"
  define s2 where "s2 = step s1 (ActivateDone p True)"
  define s3 where "s3 = step s2 (Close (JObj ow) xs)"
  define s4 where "s4 = step s3 (DeactivateDone (length (closes s2)) True)"
  have sh: "show_dialog s (Instance ow) d cx = (s1, p)"
    by (simp add: show_dialog_shape s1_def p_def c0_def)
  have c0: "lookup (calls s1) p = Some c0" "phase c0 = Activating ow" "dfd c0 = Pending"
    "dialogContext c0 = Some a"
    by (simp_all add: s1_def p_def c0_def a)
  from on_activated_True[OF c0(1,2)] obtain th where th: "owner th = ow"
    "calls s2 = (calls s1)[p := c0\<lparr>phase := Activated th\<rparr>]"
    "dialogs s2 = (dialogs s1)(ow \<mapsto> p)"
    unfolding s2_def by (auto simp: step_def)
  let ?c = "c0\<lparr>phase := Activated th\<rparr>"
  have heap2: "heap s2 = heap s" unfolding s2_def by (simp add: step_def s1_def)
  have c2: "lookup (calls s2) p = Some ?c" using th(2) c0(1) by (simp add: lookup_Some_length)
  have s3: "s3 = s2\<lparr>closes := closes s2 @ [Some (p, xs)], effects := effects s2 @ [DeactivateItem p ow True]\<rparr>"
    unfolding s3_def using th c2 by (simp add: step_Close_attached session_close_Activated)
  have cap: "captured s3 ?c = Some (a, dc)"
    using c0(4) dc by (simp add: captured_def s3 heap2)
  have "lookup (closes s3) (length (closes s2)) = Some (Some (p, xs))" "lookup (calls s3) p = Some ?c"
    using c2 by (simp_all add: s3)
  from on_deactivated_True[OF this, of th a dc] cap
  have s4: "calls s4 = (calls s3)[p := ?c\<lparr>dfd := dfd_resolve (dfd ?c) xs\<rparr>]"
    "dialogs s4 = (dialogs s3)(owner th := None)"
    unfolding s4_def by (simp_all add: step_def)
  have "future s4 p = Some (Resolved xs)"
    using s4(1) c2 c0(3) by (simp add: future_def s3 lookup_Some_length)
  moreover have "getDialog s4 (JObj ow) = Inr None" using s4(2) th(1) by simp
  moreover have "future s2 p = Some Pending" using c2 c0(3) by (simp add: future_def)
  moreover have "getDialog s2 (JObj ow) = Inr (Some p)" using th(3) by simp
  ultimately show "(let (s1, p) = show_dialog s (Instance ow) d cx;
                s2 = step s1 (ActivateDone p True);
                s3 = step s2 (Close (JObj ow) xs);
                s4 = step s3 (DeactivateDone (length (closes s2)) True)
            in future s2 p = Some Pending \<and> getDialog s2 (JObj ow) = Inr (Some p) \<and>
               future s4 p = Some (Resolved xs) \<and> getDialog s4 (JObj ow) = Inr None)"
    unfolding sh Let_def prod.case s2_def[symmetric] s3_def[symmetric] s4_def[symmetric]
    by simp
qed

theorem show_then_close_resolves_witness:
  "reachable init \<and> getContext init None = Some 0 \<and>
   future (run init [Invoke ''show'' (Instance 7) JUndefined None, ActivateDone 0 True,
                     Close (JObj 7) [JStr ''X''], DeactivateDone 0 True]) 0 = Some (Resolved [JStr ''X'']) \<and>
   getDialog (run init [Invoke ''show'' (Instance 7) JUndefined None, ActivateDone 0 True,
                        Close (JObj 7) [JStr ''X''], DeactivateDone 0 True]) (JObj 7) = Inr None"
  using reachable_init show_then_close_resolves[OF reachable_init, of None 7 JUndefined "[JStr ''X'']"]
  by (simp add: eval getContext_def)


section \<open>The counters\<close>

lemma count_on_activated:
  "dialogCount (on_activated s k b) = dialogCount s + (if opens s (ActivateDone k b) then 1 else 0)"
  by (simp add: on_activated_def opens_def hooks_defs split: option.splits phase.splits hooks.splits prod.splits)

lemma count_on_deactivated:
  "dialogCount (on_deactivated s t b) = dialogCount s - (if completes_close s (DeactivateDone t b) then 1 else 0)"
  by (simp add: on_deactivated_def completes_close_def hooks_defs split: option.splits phase.splits hooks.splits prod.splits)

lemma count_step:
  "dialogCount (step s e) =
     dialogCount s + (if opens s e then 1 else 0) - (if completes_close s e then 1 else 0)"
proof (cases e)
  case (Invoke m obj d cx)
  with step_Invoke[of s m obj d cx] show ?thesis
    by (auto simp: show_dialog_shape opens_def completes_close_def)
next
  case (Close obj rest)
  with step_Close[of s obj rest] show ?thesis by (auto simp: opens_def completes_close_def)
next
  case (ActivateDone k b)
  then show ?thesis by (simp add: step_def count_on_activated completes_close_def)
next
  case (DeactivateDone t b)
  then show ?thesis by (simp add: step_def count_on_deactivated opens_def)
qed (auto simp: step_def opens_def completes_close_def getNextZIndex_def on_acquired_shape
       split: sum.splits option.splits phase.splits dest!: addContext_shape)

lemma count_run:
  "dialogCount (run s es) = dialogCount s + int (opened s es) - int (closed s es)"
  by (induction es arbitrary: s) (simp_all add: count_step)

lemma live_step:
  assumes "wf s" "dialogCount s = int (live_sessions s)" "orderly_step s e"
  shows "dialogCount (step s e) = int (live_sessions (step s e))"
proof -
  note fin = wf_finite[OF assms(1)]
  have "dialogs (on_activated s k False) = dialogs s" for k
    by (simp add: on_activated_def split: option.splits phase.splits)
  moreover have "dialogs (on_deactivated s t False) = dialogs s" for t
    by (simp add: on_deactivated_False split: option.splits)
  ultimately consider
    (same) "dialogs (step s e) = dialogs s" "\<not> (\<exists>cid. e = ActivateDone cid True)" "\<not> (\<exists>t. e = DeactivateDone t True)"
    | (act) cid where "e = ActivateDone cid True"
    | (deact) t where "e = DeactivateDone t True"
    using dialogs_step[of s e] by (cases e) (auto simp: step_def)
  then show ?thesis
  proof cases
    case same
    then have "\<not> opens s e" "\<not> completes_close s e"
      by (auto simp: opens_def completes_close_def split: event.splits)
    with same assms(2) count_step[of s e] show ?thesis by (simp add: live_sessions_def)
  next
    case (act cid)
    show ?thesis
    proof (cases "\<exists>ck i. lookup (calls s) cid = Some ck \<and> phase ck = Activating i")
      case False
      then have "on_activated s cid True = s"
        by (intro on_activated_idle) (cases "lookup (calls s) cid"; auto)
      with act assms(2) show ?thesis by (simp add: step_def)
    next
      case True
      then obtain ck i where ck: "lookup (calls s) cid = Some ck" "phase ck = Activating i" by blast
      with assms(3) act have o: "dialogs s i = None" "captured s ck \<noteq> None"
        by (auto simp: orderly_step_def)
      from on_activated_True[OF ck] have d: "dialogs (step s e) = (dialogs s)(i \<mapsto> cid)"
        using act by (auto simp: step_def)
      have "opens s e" using ck o act by (simp add: opens_def)
      moreover have "\<not> completes_close s e" using act by (simp add: completes_close_def)
      moreover have "card (dom ((dialogs s)(i \<mapsto> cid))) = Suc (card (dom (dialogs s)))"
        using fin o(1) by (simp add: domIff)
      ultimately show ?thesis using count_step[of s e] assms(2) d by (simp add: live_sessions_def)
    qed
  next
    case (deact t)
    show ?thesis
    proof (cases "\<exists>k args ck th. lookup (closes s) t = Some (Some (k, args)) \<and> lookup (calls s) k = Some ck
                \<and> phase ck = Activated th")
      case False
      then have "calls (on_deactivated s t True) = calls s" "dialogs (on_deactivated s t True) = dialogs s"
        "dialogCount (on_deactivated s t True) = dialogCount s"
        by (auto simp: on_deactivated_def Let_def captured_def split: option.splits phase.splits)
      with deact assms(2) show ?thesis by (simp add: step_def live_sessions_def)
    next
      case True
      then obtain k args ck th where k: "lookup (closes s) t = Some (Some (k, args))"
        "lookup (calls s) k = Some ck" "phase ck = Activated th" by blast
      with assms(3) deact obtain a dc where o: "dialogs s (owner th) = Some k" "captured s ck = Some (a, dc)"
        by (auto simp: orderly_step_def)
      from on_deactivated_True[OF k o(2)] deact
      have d: "dialogs (step s e) = (dialogs s)(owner th := None)" "dialogCount (step s e) = dialogCount s - 1"
        by (simp_all add: step_def)
      have "owner th \<in> dom (dialogs s)" using o(1) by blast
      then have "card (dom ((dialogs s)(owner th := None))) = card (dom (dialogs s)) - 1"
        "card (dom (dialogs s)) > 0"
        using fin by (auto simp: card_gt_0_iff)
      with d assms(2) show ?thesis by (simp add: live_sessions_def)
    qed
  qed
qed

lemma live_run:
  "wf s \<Longrightarrow> dialogCount s = int (live_sessions s) \<Longrightarrow> orderly s es \<Longrightarrow>
   dialogCount (run s es) = int (live_sessions (run s es))"
  by (induction es arbitrary: s) (simp_all add: live_step wf_step)

lemma count_on_orderly_executions:
  "orderly init es \<Longrightarrow> dialogCount (run init es) = int (live_sessions (run init es))"
  using live_run[OF wf_init, of es] by (simp add: init_eq live_sessions_def)

text \<open>
  \<^bold>\<open>C6\<close>  The code does not keep the counter equal to the number of live sessions.  The
  \<open>close\<close> function of a session looks neither at whether the session is still attached to
  its owner nor at whether a deactivation of it is already under way: every call starts a
  deactivation, and every deactivation that succeeds runs \<open>dialogCount--\<close>.  In the execution
  below one dialog is opened in the default context and the \<open>close\<close> of its session is called
  twice before the activator answers (two clicks on the blockout of a dialog that closes on
  click have this effect, and so have two calls of \<open>dialog.close\<close>); both deactivations
  succeed.  One dialog was opened and the counter was decremented twice: it is \<open>-1\<close>, no owner
  carries a session and no continuation is pending.  When the next dialog is opened, one
  session is live, the counter is 0 and \<open>isOpen\<close> answers false, which its documentation
  ("True if a dialog is open") excludes.  Lemma \<open>count_on_orderly_executions\<close> shows that the
  counter is right as long as no session is closed twice and no open owner is shown again.
\<close>

theorem second_close_decrements_again:
  "open_session (run init [Invoke ''show'' (Instance 0) JUndefined None, ActivateDone 0 True]) 0 0 \<and>
   dialogCount (run init [Invoke ''show'' (Instance 0) JUndefined None, ActivateDone 0 True]) = 1 \<and>
   opened init [Invoke ''show'' (Instance 0) JUndefined None, ActivateDone 0 True,
       SessionClose 0 [], SessionClose 0 [], DeactivateDone 0 True, DeactivateDone 1 True] = 1 \<and>
   closed init [Invoke ''show'' (Instance 0) JUndefined None, ActivateDone 0 True,
       SessionClose 0 [], SessionClose 0 [], DeactivateDone 0 True, DeactivateDone 1 True] = 2 \<and>
   dialogCount (run init [Invoke ''show'' (Instance 0) JUndefined None, ActivateDone 0 True,
       SessionClose 0 [], SessionClose 0 [], DeactivateDone 0 True, DeactivateDone 1 True]) = - 1 \<and>
   live_sessions (run init [Invoke ''show'' (Instance 0) JUndefined None, ActivateDone 0 True,
       SessionClose 0 [], SessionClose 0 [], DeactivateDone 0 True, DeactivateDone 1 True]) = 0 \<and>
   dom (dialogs (run init [Invoke ''show'' (Instance 0) JUndefined None, ActivateDone 0 True,
       SessionClose 0 [], SessionClose 0 [], DeactivateDone 0 True, DeactivateDone 1 True])) = {} \<and>
   closes (run init [Invoke ''show'' (Instance 0) JUndefined None, ActivateDone 0 True,
       SessionClose 0 [], SessionClose 0 [], DeactivateDone 0 True, DeactivateDone 1 True]) = [None, None] \<and>
   open_session (run init [Invoke ''show'' (Instance 0) JUndefined None, ActivateDone 0 True,
       SessionClose 0 [], SessionClose 0 [], DeactivateDone 0 True, DeactivateDone 1 True,
       Invoke ''show'' (Instance 1) JUndefined None, ActivateDone 1 True]) 1 1 \<and>
   live_sessions (run init [Invoke ''show'' (Instance 0) JUndefined None, ActivateDone 0 True,
       SessionClose 0 [], SessionClose 0 [], DeactivateDone 0 True, DeactivateDone 1 True,
       Invoke ''show'' (Instance 1) JUndefined None, ActivateDone 1 True]) = 1 \<and>
   dialogCount (run init [Invoke ''show'' (Instance 0) JUndefined None, ActivateDone 0 True,
       SessionClose 0 [], SessionClose 0 [], DeactivateDone 0 True, DeactivateDone 1 True,
       Invoke ''show'' (Instance 1) JUndefined None, ActivateDone 1 True]) = 0 \<and>
   isOpen (run init [Invoke ''show'' (Instance 0) JUndefined None, ActivateDone 0 True,
       SessionClose 0 [], SessionClose 0 [], DeactivateDone 0 True, DeactivateDone 1 True,
       Invoke ''show'' (Instance 1) JUndefined None, ActivateDone 1 True]) = False"
  by (simp add: eval live_sessions_def open_session_def opens_def completes_close_def)
















section \<open>Helpers, lookups and the registry\<close>

lemma capitalized_session_close: "capitalized (session_close s cid rest) = capitalized s"
  by (simp add: session_close_def split: option.splits phase.splits)

lemma capitalized_step: "capitalized (step s e) = capitalized s"
proof (cases e)
  case (Invoke m obj d cx)
  with step_Invoke[of s m obj d cx] show ?thesis by (auto simp: show_dialog_shape)
next
  case (Close obj rest)
  with step_Close[of s obj rest] show ?thesis by (auto simp: capitalized_session_close)
next
  case (ActivateDone k b)
  then show ?thesis
    by (simp add: step_def on_activated_def hooks_defs
          split: option.splits phase.splits hooks.splits prod.splits)
next
  case (DeactivateDone t b)
  then show ?thesis
    by (simp add: step_def on_deactivated_def hooks_defs
          split: option.splits phase.splits hooks.splits prod.splits)
qed (auto simp: step_def getNextZIndex_def on_acquired_shape capitalized_session_close
       split: sum.splits option.splits phase.splits dest!: addContext_shape)

lemma capitalized_run: "capitalized (run s es) = capitalized s"
  by (induction es arbitrary: s) (simp_all add: capitalized_step)

lemma toUpperCase_letters:
  "map toUpperCase ''abcdefghijklmnopqrstuvwxyz'' = ''ABCDEFGHIJKLMNOPQRSTUVWXYZ''"
  by (simp add: toUpperCase_def)

lemma toUpperCase_other: "c \<notin> set ''abcdefghijklmnopqrstuvwxyz'' \<Longrightarrow> toUpperCase c = c"
  by (simp add: toUpperCase_def)

lemma helperName_confirm: "helperName s ''confirm'' = ''showConfirm''"
  by (simp add: helperName_def ascii_def toUpperCase_def)

lemma helperName_empty: "helperName s [] = ''show''"
  by (simp add: helperName_def)

lemma invoke_helper:
  "members s m = Some (HelperFn n) \<Longrightarrow> invoke s m obj d cx = invoke s ''show'' obj d (Some n)"
  by (subst invoke.simps) simp

lemma invoke_replaced:
  assumes "invoke s m obj d cx = Some r"
  shows "\<forall>k. members s ''show'' = Some (HelperFn k) \<longrightarrow> members s m = None \<or> members s m = Some ShowFn"
proof (rule invoke.raw_induct
    [where P = "\<lambda>s m obj d cx r. \<forall>k. members s ''show'' = Some (HelperFn k) \<longrightarrow>
                  members s m = None \<or> members s m = Some ShowFn"])
  show "invoke s m obj d cx = Some r" by (rule assms)
next
  fix f s m obj d cx r
  assume IH: "\<And>s m obj d cx r. f s m obj d cx = Some r \<Longrightarrow>
                \<forall>k. members s ''show'' = Some (HelperFn k) \<longrightarrow>
                  members s m = None \<or> members s m = Some ShowFn"
    and body: "(case members s m of None \<Rightarrow> Some (Inl TypeError)
                | Some ShowFn \<Rightarrow> Some (Inr (show_dialog s obj d cx))
                | Some (HelperFn n) \<Rightarrow> f s ''show'' obj d (Some n)) = Some r"
  show "\<forall>k. members s ''show'' = Some (HelperFn k) \<longrightarrow> members s m = None \<or> members s m = Some ShowFn"
  proof (cases "members s m")
    case None
    then show ?thesis by simp
  next
    case (Some g)
    show ?thesis
    proof (cases g)
      case ShowFn
      with Some show ?thesis by simp
    next
      case (HelperFn n)
      with Some body have "f s ''show'' obj d (Some n) = Some r" by simp
      from IH[OF this] show ?thesis by auto
    qed
  qed
qed

lemma empty_name_replaces_show:
  assumes "addContext s [] a = Inr s'"
  shows "invoke s' ''show'' obj d cx = None"
proof (cases "invoke s' ''show'' obj d cx")
  case (Some r)
  from addContext_shape[OF assms] have "members s' ''show'' = Some (HelperFn [])"
    by (auto simp: helperName_empty[of s])
  with invoke_replaced[OF Some] show ?thesis by auto
qed simp

text \<open>
  \<^bold>\<open>C8\<close>  After \<open>addContext(name, ctx)\<close> the manager has a property that holds a helper for
  the name, and calling it with \<open>obj\<close> and \<open>data\<close> (whatever third argument is passed) does
  what calling \<open>show(obj, data, name)\<close> on the manager does, in result and in effect on the
  state; where \<open>show\<close> is the built-in function this is the built-in \<open>show\<close> with that context
  name.  The property is named \<open>show\<close> followed by the name with its first character in upper
  case: for a name that starts with a character of ASCII that character is replaced by its
  capital when it is one of the letters \<open>a\<close> to \<open>z\<close> and kept otherwise, and the rest of the
  name follows as it is; for any other name what follows \<open>show\<close> is what the language's
  \<open>substr\<close> and \<open>toUpperCase\<close> make of the name; for the empty name the property is \<open>show\<close>
  itself.  For \<open>confirm\<close> the property is \<open>showConfirm\<close>.
\<close>

theorem addContext_installs_helper:
  assumes "addContext s n a = Inr s'"
  shows "members s' (helperName s n) = Some (HelperFn n) \<and>
         invoke s' (helperName s n) obj d cx = invoke s' ''show'' obj d (Some n) \<and>
         step s' (Invoke (helperName s n) obj d cx) = step s' (Invoke ''show'' obj d (Some n)) \<and>
         (members s' ''show'' = Some ShowFn \<longrightarrow>
            invoke s' (helperName s n) obj d cx = Some (Inr (show_dialog s' obj d (Some n)))) \<and>
         helperName s ''confirm'' = ''showConfirm'' \<and>
         (n = [] \<longrightarrow> helperName s n = ''show'') \<and>
         (\<forall>c cs. n = c # cs \<and> ascii c \<longrightarrow> helperName s n = ''show'' @ toUpperCase c # cs) \<and>
         (\<forall>c cs. n = c # cs \<and> \<not> ascii c \<longrightarrow> helperName s n = ''show'' @ capitalized s n) \<and>
         map toUpperCase ''abcdefghijklmnopqrstuvwxyz'' = ''ABCDEFGHIJKLMNOPQRSTUVWXYZ'' \<and>
         (\<forall>c. c \<notin> set ''abcdefghijklmnopqrstuvwxyz'' \<longrightarrow> toUpperCase c = c) \<and>
         capitalized s' = capitalized s"
proof -
  from addContext_shape[OF assms] have m: "members s' (helperName s n) = Some (HelperFn n)"
    and k: "capitalized s' = capitalized s" by auto
  from invoke_helper[OF m]
  have i: "invoke s' (helperName s n) obj d cx = invoke s' ''show'' obj d (Some n)" .
  then have st: "step s' (Invoke (helperName s n) obj d cx) = step s' (Invoke ''show'' obj d (Some n))"
    by (simp add: step_def)
  have b: "members s' ''show'' = Some ShowFn \<longrightarrow>
            invoke s' (helperName s n) obj d cx = Some (Inr (show_dialog s' obj d (Some n)))"
    using i by (simp add: invoke_builtin)
  have nm: "n = [] \<longrightarrow> helperName s n = ''show''"
    "\<forall>c cs. n = c # cs \<and> ascii c \<longrightarrow> helperName s n = ''show'' @ toUpperCase c # cs"
    "\<forall>c cs. n = c # cs \<and> \<not> ascii c \<longrightarrow> helperName s n = ''show'' @ capitalized s n"
    by (simp_all add: helperName_def)
  have up: "\<forall>c. c \<notin> set ''abcdefghijklmnopqrstuvwxyz'' \<longrightarrow> toUpperCase c = c"
    using toUpperCase_other by blast
  from m i st b nm up k toUpperCase_letters helperName_confirm[of s] show ?thesis by blast
qed

theorem addContext_installs_helper_witness:
  "addContext init ''confirm'' 0 = Inr (step init (AddContext ''confirm'' 0)) \<and>
   members (step init (AddContext ''confirm'' 0)) ''showConfirm'' = Some (HelperFn ''confirm'') \<and>
   members (step init (AddContext ''confirm'' 0)) ''show'' = Some ShowFn \<and>
   invoke (step init (AddContext ''confirm'' 0)) ''showConfirm'' (Instance 7) JNull None
     = Some (Inr (show_dialog (step init (AddContext ''confirm'' 0)) (Instance 7) JNull (Some ''confirm''))) \<and>
   ascii CHR ''c'' \<and> toUpperCase CHR ''c'' = CHR ''C''"
proof -
  have a: "addContext init ''confirm'' 0 = Inr (step init (AddContext ''confirm'' 0))"
    by (simp add: step_def addContext_def init_eq lookup_def)
  have s: "members (step init (AddContext ''confirm'' 0)) ''show'' = Some ShowFn"
    by (simp add: step_def addContext_def init_eq lookup_def helperName_confirm)
  have c: "ascii CHR ''c''" "toUpperCase CHR ''c'' = CHR ''C''"
    by (simp_all add: ascii_def toUpperCase_def)
  note t = addContext_installs_helper[OF a, of "Instance 7" JNull None, unfolded helperName_confirm]
  from a s c t show ?thesis by blast
qed

text \<open>
  \<^bold>\<open>C9\<close>  \<open>getDialog\<close> never throws: for every argument it returns the session or nothing,
  because the property is read only from a truthy value.  \<open>close\<close> never throws either, and
  when \<open>getDialog\<close> finds no session, in particular for an owner that carries none, \<open>close\<close>
  returns with the state exactly as it was.
\<close>

theorem close_without_session_is_noop:
  "(getDialog s obj = Inr None \<longrightarrow> close s obj rest = Inr s \<and> step s (Close obj rest) = s) \<and>
   (dialogs s ow = None \<longrightarrow> close s (JObj ow) rest = Inr s) \<and>
   (\<exists>r. getDialog s obj = Inr r) \<and> (\<exists>s'. close s obj rest = Inr s') \<and>
   getDialog s (JObj ow) = Inr (dialogs s ow) \<and>
   read_dialog s JNull = Inl TypeError \<and> getDialog s JNull = Inr None"
proof -
  have g: "\<exists>r. getDialog s obj = Inr r" by (cases obj) (simp_all add: getDialog_def read_dialog_def)
  then have "\<exists>s'. close s obj rest = Inr s'" by (auto simp: close_def split: option.splits)
  with g show ?thesis by (auto simp: close_def step_def getDialog_def read_dialog_def)
qed

theorem close_without_session_is_noop_witness:
  "dialogs init 5 = None \<and> getDialog init (JObj 5) = Inr None \<and>
   close init (JObj 5) [JStr ''X''] = Inr init \<and>
   step init (Close (JObj 5) [JStr ''X'']) = init \<and>
   getDialog init JNull = Inr None \<and> close init JUndefined [] = Inr init"
  using close_without_session_is_noop[of init "JObj 5" "[JStr ''X'']" 5]
        close_without_session_is_noop[of init JNull "[]" 5]
        close_without_session_is_noop[of init JUndefined "[]" 5]
  by (simp add: getDialog_def read_dialog_def init_eq)

lemma names_agree_init: "names_agree init"
  by (simp add: names_agree_def init_eq lookup_def)

text \<open>
  \<^bold>\<open>C10\<close>, as amended.  The claim says that \<open>getContext(n).name\<close> is \<open>n\<close> for every registered
  name.  \<open>addContext\<close> stores a reference to the object it renames, so an object registered
  under \<open>a\<close> and then under \<open>b\<close> is found under \<open>a\<close> with the name \<open>b\<close>; and a context registered
  under the empty string is never found by \<open>getContext\<close>, which takes the empty string for an
  omitted name.  What holds instead: \<open>addContext(n, ctx)\<close> writes \<open>n\<close> into the object and
  stores it under \<open>n\<close>, whatever name it carried, so that right after it \<open>getContext(n).name\<close> is
  \<open>n\<close> for every non-empty \<open>n\<close>; if every entry of the registry carried its key as name before
  and the object is registered under no other key, every entry does so afterwards, as in the
  loaded module; and \<open>getContext\<close> with no name or with the empty string returns the context
  registered under \<open>default\<close>.
\<close>

theorem addContext_names_registered_context:
  "(addContext s n a = Inr s' \<longrightarrow>
      contexts s' n = Some a \<and> (\<exists>c. lookup (heap s') a = Some c \<and> name c = Some n) \<and>
      (n \<noteq> [] \<longrightarrow> (\<exists>c. deref s' (getContext s' (Some n)) = Some c \<and> name c = Some n)) \<and>
      (names_agree s \<and> (\<forall>m. m \<noteq> n \<longrightarrow> contexts s m \<noteq> Some a) \<longrightarrow> names_agree s')) \<and>
   getContext s None = contexts s ''default'' \<and>
   getContext s (Some []) = contexts s ''default'' \<and>
   names_agree init"
proof -
  have "contexts s' n = Some a \<and> (\<exists>c. lookup (heap s') a = Some c \<and> name c = Some n) \<and>
      (n \<noteq> [] \<longrightarrow> (\<exists>c. deref s' (getContext s' (Some n)) = Some c \<and> name c = Some n)) \<and>
      (names_agree s \<and> (\<forall>m. m \<noteq> n \<longrightarrow> contexts s m \<noteq> Some a) \<longrightarrow> names_agree s')"
    if "addContext s n a = Inr s'"
  proof -
    from addContext_shape[OF that] obtain c where c: "lookup (heap s) a = Some c"
      "s' = s\<lparr>heap := (heap s)[a := c\<lparr>name := Some n\<rparr>], contexts := (contexts s)(n \<mapsto> a),
              members := (members s)(helperName s n \<mapsto> HelperFn n)\<rparr>" by blast
    have 1: "contexts s' n = Some a" by (simp add: c)
    have 2: "\<exists>c. lookup (heap s') a = Some c \<and> name c = Some n"
      using c(1) by (simp add: c(2) lookup_Some_length)
    have 3: "n \<noteq> [] \<longrightarrow> (\<exists>c. deref s' (getContext s' (Some n)) = Some c \<and> name c = Some n)"
      using 1 2 by (simp add: deref_def getContext_def or_default_def)
    have 4: "names_agree s \<and> (\<forall>m. m \<noteq> n \<longrightarrow> contexts s m \<noteq> Some a) \<longrightarrow> names_agree s'"
      using c(1) unfolding names_agree_def c(2)
      by (auto simp: lookup_Some_length)
    from 1 2 3 4 show ?thesis by blast
  qed
  moreover have "getContext s None = contexts s ''default''"
    "getContext s (Some []) = contexts s ''default''"
    by (simp_all add: getContext_def or_default_def)
  ultimately show ?thesis using names_agree_init by blast
qed

theorem addContext_names_registered_context_witness:
  "addContext (step init (NewContext (default_literal\<lparr>name := Some ''old''\<rparr>))) ''confirm'' 1
     = Inr (run init [NewContext (default_literal\<lparr>name := Some ''old''\<rparr>), AddContext ''confirm'' 1]) \<and>
   names_agree (step init (NewContext (default_literal\<lparr>name := Some ''old''\<rparr>))) \<and>
   names_agree (run init [NewContext (default_literal\<lparr>name := Some ''old''\<rparr>), AddContext ''confirm'' 1]) \<and>
   map_option name
     (deref (run init [NewContext (default_literal\<lparr>name := Some ''old''\<rparr>), AddContext ''confirm'' 1])
        (getContext (run init [NewContext (default_literal\<lparr>name := Some ''old''\<rparr>), AddContext ''confirm'' 1])
           (Some ''confirm'')))
     = Some (Some ''confirm'')"
proof -
  have a: "addContext (step init (NewContext (default_literal\<lparr>name := Some ''old''\<rparr>))) ''confirm'' 1
     = Inr (run init [NewContext (default_literal\<lparr>name := Some ''old''\<rparr>), AddContext ''confirm'' 1])"
    by (simp add: step_def addContext_def init_eq lookup_def)
  have n: "names_agree (step init (NewContext (default_literal\<lparr>name := Some ''old''\<rparr>)))"
    by (simp add: names_agree_def step_def init_eq lookup_def)
  have f: "\<forall>m. m \<noteq> ''confirm'' \<longrightarrow>
             contexts (step init (NewContext (default_literal\<lparr>name := Some ''old''\<rparr>))) m \<noteq> Some 1"
    by (simp add: step_def init_eq)
  show ?thesis
    using a n f
      addContext_names_registered_context
        [of "step init (NewContext (default_literal\<lparr>name := Some ''old''\<rparr>))" "''confirm''" 1
            "run init [NewContext (default_literal\<lparr>name := Some ''old''\<rparr>), AddContext ''confirm'' 1]"]
    by auto
qed

text \<open>
  The executions that refute \<^bold>\<open>C10\<close> as stated: one object registered under two names,
  and an object registered under the empty string.
\<close>

theorem shared_context_counterexample:
  "map_option name (deref (run init [NewContext default_literal, AddContext ''a'' 1, AddContext ''b'' 1])
      (getContext (run init [NewContext default_literal, AddContext ''a'' 1, AddContext ''b'' 1]) (Some ''a'')))
     = Some (Some ''b'') \<and>
   contexts (run init [NewContext default_literal, AddContext [] 1]) [] = Some 1 \<and>
   map_option name (deref (run init [NewContext default_literal, AddContext [] 1])
      (getContext (run init [NewContext default_literal, AddContext [] 1]) (Some [])))
     = Some (Some ''default'')"
  by (simp add: eval deref_def getContext_def)

end
